theory Spec2Isabelle
  imports Main "HOL-Library.Code_Target_Nat"
begin

section \<open>Memory model\<close>

text \<open>
  The list of \<^verbatim>\<open>single-linked-list.h\<close> is a chain of heap nodes hanging off a
  sentinel node that is a member of the list object. Iterators and \<^verbatim>\<open>next_node\<close>
  links are raw \<^verbatim>\<open>Node*\<close> pointers, several list objects live side by side, and
  what is proved below depends on which of them share nodes, so the model keeps an
  explicit store:
  \<^item> \<open>cells\<close>: the free store. Address \<open>a\<close> is the \<open>a\<close>-th node ever made by
    \<^verbatim>\<open>new\<close>; \<open>None\<close> marks a node that was \<^verbatim>\<open>delete\<close>d. \<^verbatim>\<open>new\<close> never
    fails and never hands out an address again (memory is unbounded).
  \<^item> \<open>objs\<close>: the \<^verbatim>\<open>SingleLinkedList\<close> objects (automatic or static storage), by
    identity; \<open>None\<close> marks an object whose lifetime has ended.
  A \<^verbatim>\<open>Node*\<close> is \<open>None\<close> for \<^verbatim>\<open>nullptr\<close>, \<open>Some (Sentinel l)\<close> for
  \<^verbatim>\<open>&l.head_\<close> and \<open>Some (Cell a)\<close> for a node of the free store.
  Every access through a null pointer, a dangling pointer or a dead object, and every
  failed \<^verbatim>\<open>assert\<close>, is an error value.
\<close>

type_synonym addr = nat
type_synonym lid = nat

datatype node_ptr = Sentinel lid | Cell addr

datatype error = NullPointer | InvalidPointer | AssertionFailed

text \<open>\<^verbatim>\<open>struct Node { Type value; Node* next_node = nullptr; }\<close>
  (the field \<^verbatim>\<open>value\<close> is \<open>val\<close> here).\<close>

record 'a Node =
  val :: 'a
  next_node :: "node_ptr option"

text \<open>The data members \<^verbatim>\<open>head_\<close> and \<^verbatim>\<open>size_\<close> of the class. \<^verbatim>\<open>size_\<close> is a
  \<^verbatim>\<open>size_t\<close> and is kept as a natural number. \<^verbatim>\<open>++size_\<close> is \<open>+ 1\<close>: every
  increment follows a \<^verbatim>\<open>new\<close> that succeeded, and the counter of a list never exceeds
  the number of nodes alive, which is below \<open>2 ^ 64\<close> on the machine and unbounded
  here. \<^verbatim>\<open>--size_\<close> can meet zero (\<^verbatim>\<open>EraseAfter\<close> does not look at \<^verbatim>\<open>size_\<close>
  before it decrements) and then wraps to \<^verbatim>\<open>SIZE_MAX\<close> as the unsigned counter does
  (\<open>size_dec\<close>, for a 64-bit \<^verbatim>\<open>size_t\<close>).\<close>

record 'a SingleLinkedList =
  head_m :: "'a Node"
  size_m :: nat

record 'a state =
  cells :: "'a Node option list"
  objs :: "'a SingleLinkedList option list"

type_synonym iterator = "node_ptr option"

definition SIZE_MAX :: nat where
  "SIZE_MAX = 2 ^ 64 - 1"

definition size_dec :: "nat \<Rightarrow> nat" where
  "size_dec n = (if n = 0 then SIZE_MAX else n - 1)"

definition slot_at :: "'b option list \<Rightarrow> nat \<Rightarrow> 'b option" where
  "slot_at xs i = (if i < length xs then xs ! i else None)"

text \<open>Sequencing of fallible steps: the first error ends the computation.\<close>

definition then_do :: "error + 'b \<Rightarrow> ('b \<Rightarrow> error + 'c) \<Rightarrow> error + 'c" where
  "then_do m f = (case m of Inl e \<Rightarrow> Inl e | Inr x \<Rightarrow> f x)"

text \<open>The same for computations that contain a pointer-chasing loop; \<open>None\<close> is a loop
  that does not end.\<close>

definition and_then :: "(error + 'b) option \<Rightarrow> ('b \<Rightarrow> (error + 'c) option) \<Rightarrow> (error + 'c) option" where
  "and_then m f = (case m of None \<Rightarrow> None | Some (Inl e) \<Rightarrow> Some (Inl e) | Some (Inr x) \<Rightarrow> f x)"

text \<open>Reading \<^verbatim>\<open>*p\<close> and writing \<^verbatim>\<open>*p = n\<close> for a \<^verbatim>\<open>Node* p\<close>.\<close>

definition load :: "'a state \<Rightarrow> node_ptr option \<Rightarrow> error + 'a Node" where
  "load s p = (case p of
       None \<Rightarrow> Inl NullPointer
     | Some (Sentinel l) \<Rightarrow>
         (case slot_at (objs s) l of None \<Rightarrow> Inl InvalidPointer | Some ob \<Rightarrow> Inr (head_m ob))
     | Some (Cell a) \<Rightarrow>
         (case slot_at (cells s) a of None \<Rightarrow> Inl InvalidPointer | Some n \<Rightarrow> Inr n))"

definition store :: "node_ptr option \<Rightarrow> 'a Node \<Rightarrow> 'a state \<Rightarrow> error + 'a state" where
  "store p n s = (case p of
       None \<Rightarrow> Inl NullPointer
     | Some (Sentinel l) \<Rightarrow>
         (case slot_at (objs s) l of
            None \<Rightarrow> Inl InvalidPointer
          | Some ob \<Rightarrow> Inr (s\<lparr>objs := (objs s)[l := Some (ob\<lparr>head_m := n\<rparr>)]\<rparr>))
     | Some (Cell a) \<Rightarrow>
         (case slot_at (cells s) a of
            None \<Rightarrow> Inl InvalidPointer
          | Some _ \<Rightarrow> Inr (s\<lparr>cells := (cells s)[a := Some n]\<rparr>)))"

text \<open>\<^verbatim>\<open>p->next_node\<close> as an rvalue and \<^verbatim>\<open>p->next_node = q\<close>.\<close>

definition get_next :: "'a state \<Rightarrow> node_ptr option \<Rightarrow> error + node_ptr option" where
  "get_next s p = then_do (load s p) (\<lambda>n. Inr (next_node n))"

definition set_next :: "node_ptr option \<Rightarrow> node_ptr option \<Rightarrow> 'a state \<Rightarrow> error + 'a state" where
  "set_next p q s = then_do (load s p) (\<lambda>n. store p (n\<lparr>next_node := q\<rparr>) s)"

text \<open>\<^verbatim>\<open>new Node(val, next)\<close>: the node takes the next address of the free store.\<close>

definition new_Node :: "'a \<Rightarrow> node_ptr option \<Rightarrow> 'a state \<Rightarrow> node_ptr option \<times> 'a state" where
  "new_Node v nxt s =
     (Some (Cell (length (cells s))),
      s\<lparr>cells := cells s @ [Some \<lparr>val = v, next_node = nxt\<rparr>]\<rparr>)"

text \<open>\<^verbatim>\<open>delete p\<close>: nothing for \<^verbatim>\<open>nullptr\<close>; an error for a pointer that is not a live
  node of the free store (a sentinel, or a node already deleted).\<close>

definition delete_Node :: "node_ptr option \<Rightarrow> 'a state \<Rightarrow> error + 'a state" where
  "delete_Node p s = (case p of
       None \<Rightarrow> Inr s
     | Some (Sentinel l) \<Rightarrow> Inl InvalidPointer
     | Some (Cell a) \<Rightarrow>
         (case slot_at (cells s) a of
            None \<Rightarrow> Inl InvalidPointer
          | Some _ \<Rightarrow> Inr (s\<lparr>cells := (cells s)[a := None]\<rparr>)))"

text \<open>The members of the object \<^verbatim>\<open>*this\<close>: \<^verbatim>\<open>head_.next_node\<close> and \<^verbatim>\<open>size_\<close>.\<close>

definition head_next :: "lid \<Rightarrow> 'a state \<Rightarrow> error + node_ptr option" where
  "head_next this s = get_next s (Some (Sentinel this))"

definition set_head_next :: "lid \<Rightarrow> node_ptr option \<Rightarrow> 'a state \<Rightarrow> error + 'a state" where
  "set_head_next this q s = set_next (Some (Sentinel this)) q s"

definition get_size :: "lid \<Rightarrow> 'a state \<Rightarrow> error + nat" where
  "get_size this s =
     (case slot_at (objs s) this of None \<Rightarrow> Inl InvalidPointer | Some ob \<Rightarrow> Inr (size_m ob))"

definition set_size :: "lid \<Rightarrow> nat \<Rightarrow> 'a state \<Rightarrow> error + 'a state" where
  "set_size this n s =
     (case slot_at (objs s) this of
        None \<Rightarrow> Inl InvalidPointer
      | Some ob \<Rightarrow> Inr (s\<lparr>objs := (objs s)[this := Some (ob\<lparr>size_m := n\<rparr>)]\<rparr>))"

section \<open>Iterators\<close>

text \<open>A \<^verbatim>\<open>BasicIterator\<close> is its \<^verbatim>\<open>node_\<close> pointer; \<^verbatim>\<open>Iterator\<close> and
  \<^verbatim>\<open>ConstIterator\<close> differ in constness only. Two iterators are equal when their
  pointers are.\<close>

definition begin_it :: "lid \<Rightarrow> 'a state \<Rightarrow> error + iterator" where
  "begin_it this s = head_next this s"

definition end_it :: iterator where
  "end_it = None"

definition before_begin :: "lid \<Rightarrow> iterator" where
  "before_begin this = Some (Sentinel this)"

text \<open>\<^verbatim>\<open>operator++\<close>: \<^verbatim>\<open>assert(node_); node_ = node_->next_node\<close>.\<close>

definition incr :: "'a state \<Rightarrow> iterator \<Rightarrow> error + iterator" where
  "incr s it = (if it = None then Inl AssertionFailed else get_next s it)"

text \<open>\<^verbatim>\<open>operator*\<close>: \<^verbatim>\<open>node_->value\<close>.\<close>

definition deref :: "'a state \<Rightarrow> iterator \<Rightarrow> error + 'a" where
  "deref s it = then_do (load s it) (\<lambda>n. Inr (val n))"

section \<open>Operations of the list\<close>

text \<open>\<^verbatim>\<open>SingleLinkedList() = default\<close>: a new object with the default member
  initialisers \<^verbatim>\<open>head_ = Node()\<close> and \<^verbatim>\<open>size_ = 0\<close>. \<open>dflt\<close> is the value
  \<^verbatim>\<open>Type()\<close> that the sentinel's \<^verbatim>\<open>value\<close> member is initialised with.\<close>

definition new_SingleLinkedList :: "'a \<Rightarrow> 'a state \<Rightarrow> lid \<times> 'a state" where
  "new_SingleLinkedList dflt s =
     (length (objs s),
      s\<lparr>objs := objs s @ [Some \<lparr>head_m = \<lparr>val = dflt, next_node = None\<rparr>, size_m = 0\<rparr>]\<rparr>)"

definition GetSize :: "lid \<Rightarrow> 'a state \<Rightarrow> error + nat" where
  "GetSize this s = get_size this s"

definition IsEmpty :: "lid \<Rightarrow> 'a state \<Rightarrow> error + bool" where
  "IsEmpty this s = then_do (get_size this s) (\<lambda>n. Inr (n = 0))"

text \<open>\<^verbatim>\<open>std::swap(rhs.head_.next_node, head_.next_node); std::swap(rhs.size_, size_)\<close>,
  each \<^verbatim>\<open>std::swap(a, b)\<close> being \<^verbatim>\<open>tmp = a; a = b; b = tmp\<close>.\<close>

definition swap :: "lid \<Rightarrow> lid \<Rightarrow> 'a state \<Rightarrow> error + 'a state" where
  "swap this rhs s =
     then_do (head_next rhs s) (\<lambda>tmp.
     then_do (head_next this s) (\<lambda>b.
     then_do (set_head_next rhs b s) (\<lambda>s1.
     then_do (set_head_next this tmp s1) (\<lambda>s2.
     then_do (get_size rhs s2) (\<lambda>tmp_size.
     then_do (get_size this s2) (\<lambda>n.
     then_do (set_size rhs n s2) (\<lambda>s3.
     set_size this tmp_size s3)))))))"

text \<open>The free function \<^verbatim>\<open>swap(lhs, rhs)\<close> is \<^verbatim>\<open>rhs.swap(lhs)\<close>.\<close>

definition swap_free :: "lid \<Rightarrow> lid \<Rightarrow> 'a state \<Rightarrow> error + 'a state" where
  "swap_free lhs rhs s = swap rhs lhs s"

definition PushFront :: "lid \<Rightarrow> 'a \<Rightarrow> 'a state \<Rightarrow> error + 'a state" where
  "PushFront this v s =
     then_do (head_next this s) (\<lambda>h.
     case new_Node v h s of (front, s1) \<Rightarrow>
     then_do (set_head_next this front s1) (\<lambda>s2.
     then_do (get_size this s2) (\<lambda>n.
     set_size this (n + 1) s2)))"

text \<open>The loop of \<^verbatim>\<open>Clear\<close> follows pointers and ends only when it meets
  \<^verbatim>\<open>nullptr\<close>.\<close>

partial_function (option) Clear_loop :: "lid \<Rightarrow> 'a state \<Rightarrow> (error + 'a state) option" where
  "Clear_loop this s =
     (case head_next this s of
        Inl e \<Rightarrow> Some (Inl e)
      | Inr h \<Rightarrow>
          if h = None then Some (Inr s)
          else (case get_next s h of
                  Inl e \<Rightarrow> Some (Inl e)
                | Inr tmp \<Rightarrow>
                    (case delete_Node h s of
                       Inl e \<Rightarrow> Some (Inl e)
                     | Inr s1 \<Rightarrow>
                         (case set_head_next this tmp s1 of
                            Inl e \<Rightarrow> Some (Inl e)
                          | Inr s2 \<Rightarrow> Clear_loop this s2))))"

declare Clear_loop.simps [code]

definition Clear :: "lid \<Rightarrow> 'a state \<Rightarrow> (error + 'a state) option" where
  "Clear this s = and_then (Clear_loop this s) (\<lambda>s1. Some (set_size this 0 s1))"

definition PopFront :: "lid \<Rightarrow> 'a state \<Rightarrow> error + 'a state" where
  "PopFront this s =
     then_do (get_size this s) (\<lambda>n.
     if n = 0 then Inl AssertionFailed
     else
       then_do (head_next this s) (\<lambda>tmp.
       then_do (head_next this s) (\<lambda>h.
       then_do (get_next s h) (\<lambda>nxt.
       then_do (set_head_next this nxt s) (\<lambda>s1.
       then_do (get_size this s1) (\<lambda>n1.
       then_do (set_size this (size_dec n1) s1) (\<lambda>s2.
       delete_Node tmp s2)))))))"

definition InsertAfter :: "lid \<Rightarrow> iterator \<Rightarrow> 'a \<Rightarrow> 'a state \<Rightarrow> error + (iterator \<times> 'a state)" where
  "InsertAfter this pos v s =
     then_do (get_next s pos) (\<lambda>nxt.
     case new_Node v nxt s of (new_node, s1) \<Rightarrow>
     then_do (set_next pos new_node s1) (\<lambda>s2.
     then_do (get_size this s2) (\<lambda>n.
     then_do (set_size this (n + 1) s2) (\<lambda>s3.
     then_do (get_next s3 pos) (\<lambda>r. Inr (r, s3))))))"

definition EraseAfter :: "lid \<Rightarrow> iterator \<Rightarrow> 'a state \<Rightarrow> error + (iterator \<times> 'a state)" where
  "EraseAfter this pos s =
     then_do (get_next s pos) (\<lambda>victim.
     then_do (get_next s victim) (\<lambda>tmp.
     then_do (get_next s pos) (\<lambda>victim'.
     then_do (delete_Node victim' s) (\<lambda>s1.
     then_do (set_next pos tmp s1) (\<lambda>s2.
     then_do (get_size this s2) (\<lambda>n.
     then_do (set_size this (size_dec n) s2) (\<lambda>s3.
     then_do (get_next s3 pos) (\<lambda>r. Inr (r, s3)))))))))"

text \<open>The destructor: \<^verbatim>\<open>Clear()\<close>, then the object's storage is gone.\<close>

definition destroy :: "lid \<Rightarrow> 'a state \<Rightarrow> (error + 'a state) option" where
  "destroy this s =
     and_then (Clear this s) (\<lambda>s1. Some (Inr (s1\<lparr>objs := (objs s1)[this := None]\<rparr>)))"

text \<open>The two loops of \<^verbatim>\<open>CopyList\<close>. Over an \<^verbatim>\<open>initializer_list\<close> the range is an
  array of values; over a list it is a pair of list iterators.\<close>

fun push_range :: "lid \<Rightarrow> 'a list \<Rightarrow> 'a state \<Rightarrow> error + 'a state" where
  "push_range tmp1 [] s = Inr s"
| "push_range tmp1 (x # xs) s =
     (case PushFront tmp1 x s of Inl e \<Rightarrow> Inl e | Inr s1 \<Rightarrow> push_range tmp1 xs s1)"

partial_function (option) push_iter ::
    "lid \<Rightarrow> iterator \<Rightarrow> iterator \<Rightarrow> 'a state \<Rightarrow> (error + 'a state) option" where
  "push_iter tmp iter last_it s =
     (if iter = last_it then Some (Inr s)
      else (case deref s iter of
              Inl e \<Rightarrow> Some (Inl e)
            | Inr x \<Rightarrow>
                (case PushFront tmp x s of
                   Inl e \<Rightarrow> Some (Inl e)
                 | Inr s1 \<Rightarrow>
                     (case incr s1 iter of
                        Inl e \<Rightarrow> Some (Inl e)
                      | Inr iter' \<Rightarrow> push_iter tmp iter' last_it s1))))"

declare push_iter.simps [code]

text \<open>The rest of \<^verbatim>\<open>CopyList\<close> after its first loop: the second loop, the swap, and
  the destructors of the two local lists in reverse order of construction.\<close>

definition CopyList_finish :: "lid \<Rightarrow> lid \<Rightarrow> lid \<Rightarrow> 'a state \<Rightarrow> (error + 'a state) option" where
  "CopyList_finish this tmp1 tmp2 s =
     and_then (Some (begin_it tmp1 s)) (\<lambda>b.
     and_then (push_iter tmp2 b end_it s) (\<lambda>s1.
     and_then (Some (swap this tmp2 s1)) (\<lambda>s2.
     and_then (destroy tmp2 s2) (\<lambda>s3.
     destroy tmp1 s3))))"

definition CopyList_range :: "'a \<Rightarrow> lid \<Rightarrow> 'a list \<Rightarrow> 'a state \<Rightarrow> (error + 'a state) option" where
  "CopyList_range dflt this list s =
     (case new_SingleLinkedList dflt s of (tmp1, s1) \<Rightarrow>
      case new_SingleLinkedList dflt s1 of (tmp2, s2) \<Rightarrow>
      and_then (Some (push_range tmp1 list s2)) (\<lambda>s3.
      CopyList_finish this tmp1 tmp2 s3))"

definition CopyList_iter ::
    "'a \<Rightarrow> lid \<Rightarrow> iterator \<Rightarrow> iterator \<Rightarrow> 'a state \<Rightarrow> (error + 'a state) option" where
  "CopyList_iter dflt this first_it last_it s =
     (case new_SingleLinkedList dflt s of (tmp1, s1) \<Rightarrow>
      case new_SingleLinkedList dflt s1 of (tmp2, s2) \<Rightarrow>
      and_then (push_iter tmp1 first_it last_it s2) (\<lambda>s3.
      CopyList_finish this tmp1 tmp2 s3))"

text \<open>\<^verbatim>\<open>SingleLinkedList(std::initializer_list<Type> list)\<close>.\<close>

definition SingleLinkedList_init ::
    "'a \<Rightarrow> 'a list \<Rightarrow> 'a state \<Rightarrow> (error + (lid \<times> 'a state)) option" where
  "SingleLinkedList_init dflt list s =
     (case new_SingleLinkedList dflt s of (this, s1) \<Rightarrow>
      and_then (CopyList_range dflt this list s1) (\<lambda>s2. Some (Inr (this, s2))))"

text \<open>\<^verbatim>\<open>SingleLinkedList(const SingleLinkedList& other)\<close>.\<close>

definition SingleLinkedList_copy ::
    "'a \<Rightarrow> lid \<Rightarrow> 'a state \<Rightarrow> (error + (lid \<times> 'a state)) option" where
  "SingleLinkedList_copy dflt other s =
     (case new_SingleLinkedList dflt s of (this, s1) \<Rightarrow>
      and_then (Some (get_size this s1)) (\<lambda>n.
      and_then (Some (head_next this s1)) (\<lambda>h.
      if \<not> (n = 0 \<and> h = None) then Some (Inl AssertionFailed)
      else
        and_then (Some (begin_it other s1)) (\<lambda>b.
        and_then (CopyList_iter dflt this b end_it s1) (\<lambda>s2. Some (Inr (this, s2)))))))"

text \<open>\<^verbatim>\<open>operator=\<close>: copy and swap, unless \<^verbatim>\<open>this == &rhs\<close>.\<close>

definition assign :: "'a \<Rightarrow> lid \<Rightarrow> lid \<Rightarrow> 'a state \<Rightarrow> (error + 'a state) option" where
  "assign dflt this rhs s =
     (if this \<noteq> rhs then
        and_then (SingleLinkedList_copy dflt rhs s) (\<lambda>(tmp, s1).
        and_then (Some (swap this tmp s1)) (\<lambda>s2.
        destroy tmp s2))
      else Some (Inr s))"

section \<open>Comparison operators\<close>

text \<open>\<^verbatim>\<open>std::equal(first1, last1, first2, last2)\<close> of the standard library, in the form
  it takes for forward iterators (no distance is computed beforehand):
  \<^verbatim>\<open>for (; first1 != last1 && first2 != last2; ++first1, ++first2)
       if (!(*first1 == *first2)) return false;
     return first1 == last1 && first2 == last2;\<close>
  \<open>eq\<close> is the \<^verbatim>\<open>operator==\<close> of the element type, which the template leaves
  open: it need not be equality (on \<^verbatim>\<open>double\<close> a NaN is not equal to itself).\<close>

partial_function (option) std_equal ::
    "('a \<Rightarrow> 'a \<Rightarrow> bool) \<Rightarrow> 'a state \<Rightarrow> iterator \<Rightarrow> iterator \<Rightarrow> iterator \<Rightarrow> iterator \<Rightarrow> (error + bool) option" where
  "std_equal eq s first1 last1 first2 last2 =
     (if first1 \<noteq> last1 \<and> first2 \<noteq> last2 then
        (case deref s first1 of
           Inl e \<Rightarrow> Some (Inl e)
         | Inr x \<Rightarrow>
             (case deref s first2 of
                Inl e \<Rightarrow> Some (Inl e)
              | Inr y \<Rightarrow>
                  if \<not> eq x y then Some (Inr False)
                  else (case incr s first1 of
                          Inl e \<Rightarrow> Some (Inl e)
                        | Inr n1 \<Rightarrow>
                            (case incr s first2 of
                               Inl e \<Rightarrow> Some (Inl e)
                             | Inr n2 \<Rightarrow> std_equal eq s n1 last1 n2 last2))))
      else Some (Inr (first1 = last1 \<and> first2 = last2)))"

declare std_equal.simps [code]

text \<open>\<^verbatim>\<open>std::lexicographical_compare(first1, last1, first2, last2)\<close>:
  \<^verbatim>\<open>for (; first1 != last1 && first2 != last2; ++first1, ++first2) {
       if (*first1 < *first2) return true;
       if (*first2 < *first1) return false;
     }
     return first1 == last1 && first2 != last2;\<close>
  The elements' \<^verbatim>\<open>operator<\<close> is the order of the element type.\<close>

partial_function (option) std_lexicographical_compare ::
    "('a::ord) state \<Rightarrow> iterator \<Rightarrow> iterator \<Rightarrow> iterator \<Rightarrow> iterator \<Rightarrow> (error + bool) option" where
  "std_lexicographical_compare s first1 last1 first2 last2 =
     (if first1 \<noteq> last1 \<and> first2 \<noteq> last2 then
        (case deref s first1 of
           Inl e \<Rightarrow> Some (Inl e)
         | Inr x \<Rightarrow>
             (case deref s first2 of
                Inl e \<Rightarrow> Some (Inl e)
              | Inr y \<Rightarrow>
                  if x < y then Some (Inr True)
                  else if y < x then Some (Inr False)
                  else (case incr s first1 of
                          Inl e \<Rightarrow> Some (Inl e)
                        | Inr n1 \<Rightarrow>
                            (case incr s first2 of
                               Inl e \<Rightarrow> Some (Inl e)
                             | Inr n2 \<Rightarrow> std_lexicographical_compare s n1 last1 n2 last2))))
      else Some (Inr (first1 = last1 \<and> first2 \<noteq> last2)))"

declare std_lexicographical_compare.simps [code]

text \<open>\<^verbatim>\<open>operator==\<close> and \<^verbatim>\<open>operator!=\<close> of two lists, for the element type's
  \<^verbatim>\<open>operator==\<close> \<open>eq\<close>.\<close>

definition op_eq :: "('a \<Rightarrow> 'a \<Rightarrow> bool) \<Rightarrow> lid \<Rightarrow> lid \<Rightarrow> 'a state \<Rightarrow> (error + bool) option" where
  "op_eq eq lhs rhs s =
     and_then (Some (begin_it lhs s)) (\<lambda>b1.
     and_then (Some (begin_it rhs s)) (\<lambda>b2.
     std_equal eq s b1 end_it b2 end_it))"

definition op_ne :: "('a \<Rightarrow> 'a \<Rightarrow> bool) \<Rightarrow> lid \<Rightarrow> lid \<Rightarrow> 'a state \<Rightarrow> (error + bool) option" where
  "op_ne eq lhs rhs s = and_then (op_eq eq lhs rhs s) (\<lambda>r. Some (Inr (\<not> r)))"

definition op_lt :: "lid \<Rightarrow> lid \<Rightarrow> ('a::ord) state \<Rightarrow> (error + bool) option" where
  "op_lt lhs rhs s =
     and_then (Some (begin_it lhs s)) (\<lambda>b1.
     and_then (Some (begin_it rhs s)) (\<lambda>b2.
     std_lexicographical_compare s b1 end_it b2 end_it))"

definition op_gt :: "lid \<Rightarrow> lid \<Rightarrow> ('a::ord) state \<Rightarrow> (error + bool) option" where
  "op_gt lhs rhs s = op_lt rhs lhs s"

definition op_le :: "lid \<Rightarrow> lid \<Rightarrow> ('a::ord) state \<Rightarrow> (error + bool) option" where
  "op_le lhs rhs s = and_then (op_lt rhs lhs s) (\<lambda>r. Some (Inr (\<not> r)))"

definition op_ge :: "lid \<Rightarrow> lid \<Rightarrow> ('a::ord) state \<Rightarrow> (error + bool) option" where
  "op_ge lhs rhs s = and_then (op_lt lhs rhs s) (\<lambda>r. Some (Inr (\<not> r)))"

section \<open>Observing a list\<close>

text \<open>Front-to-back iteration as client code writes it:
  \<^verbatim>\<open>for (auto it = l.begin(); it != l.end(); ++it) out.push_back(*it);\<close>\<close>

partial_function (option) collect ::
    "'a state \<Rightarrow> iterator \<Rightarrow> iterator \<Rightarrow> 'a list \<Rightarrow> (error + 'a list) option" where
  "collect s it last_it out =
     (if it = last_it then Some (Inr out)
      else (case deref s it of
              Inl e \<Rightarrow> Some (Inl e)
            | Inr x \<Rightarrow>
                (case incr s it of
                   Inl e \<Rightarrow> Some (Inl e)
                 | Inr it' \<Rightarrow> collect s it' last_it (out @ [x]))))"

declare collect.simps [code]

definition items :: "lid \<Rightarrow> 'a state \<Rightarrow> (error + 'a list) option" where
  "items l s = and_then (Some (begin_it l s)) (\<lambda>b. collect s b end_it [])"

section \<open>The structural invariant\<close>

text \<open>\<open>chain cs p axs\<close>: following \<^verbatim>\<open>next_node\<close> from the pointer \<open>p\<close> in the free
  store \<open>cs\<close> visits exactly the live nodes at the addresses of \<open>axs\<close>, holding the
  values of \<open>axs\<close>, and the last of them has the successor \<^verbatim>\<open>nullptr\<close>.\<close>

fun chain :: "'a Node option list \<Rightarrow> node_ptr option \<Rightarrow> (addr \<times> 'a) list \<Rightarrow> bool" where
  "chain cs p [] = (p = None)"
| "chain cs p ((a, x) # r) =
     (p = Some (Cell a) \<and>
      (case slot_at cs a of None \<Rightarrow> False | Some n \<Rightarrow> val n = x \<and> chain cs (next_node n) r))"

text \<open>\<open>is_list s l axs\<close>: \<open>l\<close> is a live list object whose sentinel heads the chain
  \<open>axs\<close> and whose \<^verbatim>\<open>size_\<close> is the number of nodes of that chain.\<close>

definition is_list :: "'a state \<Rightarrow> lid \<Rightarrow> (addr \<times> 'a) list \<Rightarrow> bool" where
  "is_list s l axs =
     (case slot_at (objs s) l of
        None \<Rightarrow> False
      | Some ob \<Rightarrow> chain (cells s) (next_node (head_m ob)) axs \<and> size_m ob = length axs)"

text \<open>The free store after the nodes at the addresses \<open>as\<close> have been deleted.\<close>

definition free_cells :: "addr list \<Rightarrow> 'a Node option list \<Rightarrow> 'a Node option list" where
  "free_cells as cs = fold (\<lambda>a c. c[a := None]) as cs"

text \<open>The pointer at which a chain starts.\<close>

definition first_ptr :: "(addr \<times> 'a) list \<Rightarrow> node_ptr option" where
  "first_ptr axs = (case axs of [] \<Rightarrow> None | (a, x) # r \<Rightarrow> Some (Cell a))"


section \<open>Notions of the specification\<close>

text \<open>The structural invariant of the list object \<open>l\<close>: there is a chain of nodes from
  its sentinel that ends in \<^verbatim>\<open>nullptr\<close>, and \<^verbatim>\<open>size_\<close> is its number of
  nodes.\<close>

definition invariant :: "'a state \<Rightarrow> lid \<Rightarrow> bool" where
  "invariant s l \<longleftrightarrow> (\<exists>axs. is_list s l axs)"

text \<open>The valid positions of a list with the chain \<open>axs\<close>: \<^verbatim>\<open>before_begin()\<close>, then
  an iterator to each element, front to back. The node of position \<open>i\<close> has a successor
  when \<open>i < length axs\<close>, and that successor is the \<open>i\<close>-th element.\<close>

definition positions :: "lid \<Rightarrow> (addr \<times> 'a) list \<Rightarrow> iterator list" where
  "positions l axs = before_begin l # map (\<lambda>ax. Some (Cell (fst ax))) axs"

text \<open>Two distinct list objects that are both valid and have no node in common.\<close>

definition independent :: "'a state \<Rightarrow> lid \<Rightarrow> lid \<Rightarrow> bool" where
  "independent s l1 l2 \<longleftrightarrow>
     l1 \<noteq> l2 \<and>
     (\<exists>axs bxs. is_list s l1 axs \<and> is_list s l2 bxs \<and> fst ` set axs \<inter> fst ` set bxs = {})"

text \<open>Mutating \<open>l\<close> by \<^verbatim>\<open>PushFront\<close>, by \<^verbatim>\<open>PopFront\<close> (when \<open>l\<close> is not empty) or by
  \<^verbatim>\<open>Clear\<close> succeeds and leaves what \<open>l2\<close> holds as it was.\<close>

definition unaffected :: "'a state \<Rightarrow> lid \<Rightarrow> lid \<Rightarrow> bool" where
  "unaffected s l l2 \<longleftrightarrow>
     (\<forall>v. \<exists>t. PushFront l v s = Inr t \<and> items l2 t = items l2 s \<and> GetSize l2 t = GetSize l2 s) \<and>
     (IsEmpty l s = Inr False \<longrightarrow>
        (\<exists>t. PopFront l s = Inr t \<and> items l2 t = items l2 s \<and> GetSize l2 t = GetSize l2 s)) \<and>
     (\<exists>t. Clear l s = Some (Inr t) \<and> items l2 t = items l2 s \<and> GetSize l2 t = GetSize l2 s)"

text \<open>\<open>L2\<close> is a deep copy of \<open>L\<close> holding the sequence \<open>xs\<close>: both lists hold
  \<open>xs\<close> and have its length as size, they are two objects without a common node, and
  mutating either leaves the other as it was. \<open>L2 == L\<close>, computed with the element
  type's \<^verbatim>\<open>operator==\<close> \<open>eq\<close>, is true exactly when every element of \<open>xs\<close> is equal
  to itself under \<open>eq\<close>.\<close>

definition deep_copy :: "('a \<Rightarrow> 'a \<Rightarrow> bool) \<Rightarrow> 'a state \<Rightarrow> lid \<Rightarrow> lid \<Rightarrow> 'a list \<Rightarrow> bool" where
  "deep_copy eq t L L2 xs \<longleftrightarrow>
     items L t = Some (Inr xs) \<and> items L2 t = Some (Inr xs) \<and>
     GetSize L t = Inr (length xs) \<and> GetSize L2 t = Inr (length xs) \<and>
     op_eq eq L2 L t = Some (Inr (\<forall>x\<in>set xs. eq x x)) \<and>
     independent t L L2 \<and> unaffected t L L2 \<and> unaffected t L2 L"

text \<open>What \<^verbatim>\<open>std::lexicographical_compare\<close> computes, on the two element sequences.\<close>

fun lex_less :: "('a::ord) list \<Rightarrow> 'a list \<Rightarrow> bool" where
  "lex_less [] [] = False"
| "lex_less [] (y # ys) = True"
| "lex_less (x # xs) [] = False"
| "lex_less (x # xs) (y # ys) = (if x < y then True else if y < x then False else lex_less xs ys)"

text \<open>Lexicographic order as the specification words it, for any element order: the
  two sequences agree up to some place \<open>k\<close> (no element there is less than its
  counterpart), and either \<open>xs\<close> ends at \<open>k\<close> while \<open>ys\<close> goes on (the length breaks
  the tie: a strict prefix is less), or both go on and \<open>xs\<close> has the smaller element at
  \<open>k\<close>.\<close>

definition lexicographic_less :: "('a::ord) list \<Rightarrow> 'a list \<Rightarrow> bool" where
  "lexicographic_less xs ys \<longleftrightarrow>
     (\<exists>k. (\<forall>i<k. \<not> xs ! i < ys ! i \<and> \<not> ys ! i < xs ! i) \<and>
          (k = length xs \<and> k < length ys \<or> k < length xs \<and> k < length ys \<and> xs ! k < ys ! k))"

section \<open>Example states\<close>

text \<open>A state with two lists that share no node: list \<open>0\<close> holds \<open>1, 2, 3\<close> in the
  nodes at addresses \<open>0, 1, 2\<close> and list \<open>1\<close> holds \<open>1, 2\<close> in the nodes at \<open>3, 4\<close>.\<close>

definition two_lists :: "nat state" where
  "two_lists =
     \<lparr>cells = [Some \<lparr>val = 1, next_node = Some (Cell 1)\<rparr>,
               Some \<lparr>val = 2, next_node = Some (Cell 2)\<rparr>,
               Some \<lparr>val = 3, next_node = None\<rparr>,
               Some \<lparr>val = 1, next_node = Some (Cell 4)\<rparr>,
               Some \<lparr>val = 2, next_node = None\<rparr>],
      objs = [Some \<lparr>head_m = \<lparr>val = 0, next_node = Some (Cell 0)\<rparr>, size_m = 3\<rparr>,
              Some \<lparr>head_m = \<lparr>val = 0, next_node = Some (Cell 3)\<rparr>, size_m = 2\<rparr>]\<rparr>"

text \<open>An element type with a value that is not equal to itself, as \<^verbatim>\<open>double\<close> has:
  \<open>NaN\<close> and the ordinary numbers, with the \<^verbatim>\<open>operator==\<close> of \<^verbatim>\<open>double\<close>, which is
  false as soon as one operand is NaN.\<close>

datatype fp = NaN | Num int

fun fp_eq :: "fp \<Rightarrow> fp \<Rightarrow> bool" where
  "fp_eq (Num a) (Num b) = (a = b)"
| "fp_eq _ _ = False"

text \<open>The list \<^verbatim>\<open>SingleLinkedList<double>{NAN}\<close> as object \<open>0\<close>, and the state after
  object \<open>1\<close> has been copy-constructed from it (the node at address \<open>1\<close> was the one
  of the first local list of \<^verbatim>\<open>CopyList\<close>; objects \<open>2\<close> and \<open>3\<close> were its two local
  lists).\<close>

definition nan_list :: "fp state" where
  "nan_list =
     \<lparr>cells = [Some \<lparr>val = NaN, next_node = None\<rparr>],
      objs = [Some \<lparr>head_m = \<lparr>val = Num 0, next_node = Some (Cell 0)\<rparr>, size_m = 1\<rparr>]\<rparr>"

definition nan_copied :: "fp state" where
  "nan_copied =
     \<lparr>cells = [Some \<lparr>val = NaN, next_node = None\<rparr>, None, Some \<lparr>val = NaN, next_node = None\<rparr>],
      objs = [Some \<lparr>head_m = \<lparr>val = Num 0, next_node = Some (Cell 0)\<rparr>, size_m = 1\<rparr>,
              Some \<lparr>head_m = \<lparr>val = Num 0, next_node = Some (Cell 2)\<rparr>, size_m = 1\<rparr>,
              None, None]\<rparr>"

section \<open>Auxiliary facts\<close>

subsection \<open>Sequencing and slots\<close>

lemma then_do_Inr [simp]: "then_do (Inr x) f = f x"
  by (simp add: then_do_def)

lemma then_do_Inl [simp]: "then_do (Inl e) f = Inl e"
  by (simp add: then_do_def)

lemma and_then_Inr [simp]: "and_then (Some (Inr x)) f = f x"
  by (simp add: and_then_def)

lemma and_then_Inl [simp]: "and_then (Some (Inl e)) f = Some (Inl e)"
  by (simp add: and_then_def)

lemma and_then_None [simp]: "and_then None f = None"
  by (simp add: and_then_def)

lemma slot_at_append [simp]:
  "slot_at (xs @ [x]) i = (if i = length xs then x else slot_at xs i)"
  by (auto simp: slot_at_def nth_append)

lemma slot_at_update [simp]:
  "slot_at (xs[j := v]) i = (if i = j \<and> j < length xs then v else slot_at xs i)"
  by (auto simp: slot_at_def)

lemma slot_at_Some_lt: "slot_at xs i = Some y \<Longrightarrow> i < length xs"
  by (auto simp: slot_at_def split: if_splits)

lemma slot_at_length [simp]: "slot_at xs (length xs) = None"
  by (simp add: slot_at_def)

subsection \<open>Chains in the free store\<close>

text \<open>A chain is determined by its first pointer, visits no node twice, and is
  not affected by changes to nodes outside it.\<close>

lemma chain_ConsD:
  "chain cs p ((a, x) # r) \<Longrightarrow>
   \<exists>n. p = Some (Cell a) \<and> slot_at cs a = Some n \<and> val n = x \<and> chain cs (next_node n) r"
  by (auto split: option.splits)

lemma chain_addr_lt: "chain cs p axs \<Longrightarrow> a \<in> fst ` set axs \<Longrightarrow> a < length cs"
proof (induction axs arbitrary: p)
  case Nil
  then show ?case by simp
next
  case (Cons ax axs)
  obtain b x where ax: "ax = (b, x)" by (cases ax)
  from Cons.prems ax obtain n where n: "slot_at cs b = Some n" "chain cs (next_node n) axs"
    by (auto split: option.splits)
  show ?case
  proof (cases "a = b")
    case True
    with n show ?thesis by (simp add: slot_at_Some_lt)
  next
    case False
    with Cons.prems ax have "a \<in> fst ` set axs" by auto
    with Cons.IH n show ?thesis by blast
  qed
qed

lemma chain_cong:
  "chain cs p axs \<Longrightarrow> (\<And>a. a \<in> fst ` set axs \<Longrightarrow> slot_at cs' a = slot_at cs a) \<Longrightarrow> chain cs' p axs"
proof (induction axs arbitrary: p)
  case Nil
  then show ?case by simp
next
  case (Cons ax axs)
  obtain b x where ax: "ax = (b, x)" by (cases ax)
  from Cons.prems(1) ax obtain n where n: "p = Some (Cell b)" "slot_at cs b = Some n" "val n = x"
      "chain cs (next_node n) axs"
    by (auto split: option.splits)
  have "slot_at cs' b = Some n" using Cons.prems(2)[of b] ax n by simp
  moreover have "chain cs' (next_node n) axs"
    using Cons.IH[OF n(4)] Cons.prems(2) by auto
  ultimately show ?case using ax n by simp
qed

lemma chain_new_cell: "chain cs p axs \<Longrightarrow> chain (cs @ [n]) p axs"
proof (rule chain_cong)
  fix a assume "chain cs p axs" "a \<in> fst ` set axs"
  then have "a < length cs" by (rule chain_addr_lt)
  then show "slot_at (cs @ [n]) a = slot_at cs a" by simp
qed

lemma chain_update_other: "chain cs p axs \<Longrightarrow> a \<notin> fst ` set axs \<Longrightarrow> chain (cs[a := v]) p axs"
  by (erule chain_cong) auto

lemma chain_unique: "chain cs p axs \<Longrightarrow> chain cs p bxs \<Longrightarrow> axs = bxs"
proof (induction axs arbitrary: p bxs)
  case Nil
  then show ?case by (cases bxs) auto
next
  case (Cons ax axs)
  obtain a x where ax: "ax = (a, x)" by (cases ax)
  from Cons.prems(1) ax obtain n where n: "p = Some (Cell a)" "slot_at cs a = Some n" "val n = x"
      "chain cs (next_node n) axs"
    by (auto split: option.splits)
  from Cons.prems(2) n obtain bx r where bxs: "bxs = bx # r" by (cases bxs) auto
  obtain b y where bx: "bx = (b, y)" by (cases bx)
  from Cons.prems(2) bxs bx n have "b = a" "y = x" "chain cs (next_node n) r"
    by (auto split: option.splits)
  with Cons.IH[OF n(4)] ax bxs bx show ?case by simp
qed

lemma chain_suffix:
  "chain cs p (axs @ bxs) \<Longrightarrow> bxs \<noteq> [] \<Longrightarrow> chain cs (Some (Cell (fst (hd bxs)))) bxs"
proof (induction axs arbitrary: p)
  case Nil
  then show ?case by (cases bxs) (auto split: option.splits)
next
  case (Cons ax axs)
  obtain a x where ax: "ax = (a, x)" by (cases ax)
  from Cons.prems(1) ax obtain n :: "'a Node" where "chain cs (next_node n) (axs @ bxs)"
    using chain_ConsD[of cs p a x "axs @ bxs"] by auto
  with Cons.IH Cons.prems(2) show ?case by blast
qed

lemma chain_head_notin_tail:
  assumes "chain cs p ((a, x) # r)" shows "a \<notin> fst ` set r"
proof
  assume "a \<in> fst ` set r"
  then obtain y where "(a, y) \<in> set r" by auto
  then obtain r1 r2 where r: "r = r1 @ (a, y) # r2" by (auto simp: in_set_conv_decomp)
  from assms obtain n where n: "slot_at cs a = Some n" "chain cs (next_node n) r"
    by (auto split: option.splits)
  from chain_suffix[of cs "next_node n" r1 "(a, y) # r2"] n r
  have "chain cs (Some (Cell a)) ((a, y) # r2)" by simp
  with n have "chain cs (next_node n) r2" by simp
  with n have "r = r2" by (blast intro: chain_unique)
  with r show False by simp
qed

lemma chain_distinct: "chain cs p axs \<Longrightarrow> distinct (map fst axs)"
proof (induction axs arbitrary: p)
  case Nil
  then show ?case by simp
next
  case (Cons ax axs)
  obtain a x where ax: "ax = (a, x)" by (cases ax)
  from Cons.prems ax obtain n :: "'a Node" where "chain cs (next_node n) axs"
    using chain_ConsD[of cs p a x axs] by auto
  with Cons.IH have "distinct (map fst axs)" by blast
  moreover from Cons.prems ax have "a \<notin> fst ` set axs" by (blast dest: chain_head_notin_tail)
  ultimately show ?case using ax by simp
qed

lemma chain_first_ptr: "chain cs p axs \<Longrightarrow> p = first_ptr axs"
  by (cases axs) (auto simp: first_ptr_def)

lemma first_ptr_simps [simp]:
  "first_ptr [] = None" "first_ptr ((a, x) # r) = Some (Cell a)"
  by (simp_all add: first_ptr_def)

lemma chain_mid:
  assumes "chain cs p (pre @ (a, x) # post)"
  shows "\<exists>n. slot_at cs a = Some n \<and> val n = x \<and> chain cs (next_node n) post"
proof -
  from chain_suffix[OF assms] have "chain cs (Some (Cell a)) ((a, x) # post)" by simp
  from chain_ConsD[OF this] show ?thesis by blast
qed

lemma chain_relink:
  assumes "chain cs p (pre @ (a, x) # post)"
    and "slot_at cs' a = Some n'" "val n' = x" "chain cs' (next_node n') post'"
    and "\<And>b. b \<in> fst ` set pre \<Longrightarrow> slot_at cs' b = slot_at cs b"
  shows "chain cs' p (pre @ (a, x) # post')"
  using assms(1,5)
proof (induction pre arbitrary: p)
  case Nil
  then have "p = Some (Cell a)" by (auto split: option.splits)
  then show ?case using assms(2,3,4) by simp
next
  case (Cons bx pre)
  obtain b y where bx: "bx = (b, y)" by (cases bx)
  from Cons.prems(1) have "chain cs p ((b, y) # pre @ (a, x) # post)" by (simp add: bx)
  from chain_ConsD[OF this] obtain m where m: "p = Some (Cell b)" "slot_at cs b = Some m"
      "val m = y" "chain cs (next_node m) (pre @ (a, x) # post)"
    by blast
  have "slot_at cs' b = Some m" using Cons.prems(2)[of b] m(2) bx by simp
  moreover have "chain cs' (next_node m) (pre @ (a, x) # post')"
    using Cons.IH[OF m(4)] Cons.prems(2) by simp
  ultimately show ?case using m(1,3) bx by simp
qed

lemma chain_mid_distinct:
  assumes "chain cs p (pre @ (a, x) # post)"
  shows "a \<notin> fst ` set pre" "a \<notin> fst ` set post" "fst ` set pre \<inter> fst ` set post = {}"
proof -
  from chain_distinct[OF assms] have "distinct (map fst pre @ a # map fst post)" by simp
  then show "a \<notin> fst ` set pre" "a \<notin> fst ` set post" "fst ` set pre \<inter> fst ` set post = {}"
    by auto
qed

lemma chain_live: "chain cs p axs \<Longrightarrow> a \<in> fst ` set axs \<Longrightarrow> slot_at cs a \<noteq> None"
proof -
  assume c: "chain cs p axs" and "a \<in> fst ` set axs"
  then obtain x where "(a, x) \<in> set axs" by auto
  then obtain pre post where "axs = pre @ (a, x) # post" by (auto simp: in_set_conv_decomp)
  with c have "chain cs p (pre @ (a, x) # post)" by simp
  from chain_mid[OF this] show ?thesis by auto
qed

lemma free_cells_length [simp]: "length (free_cells as cs) = length cs"
  unfolding free_cells_def by (induction as arbitrary: cs) auto

lemma free_cells_Nil [simp]: "free_cells [] cs = cs"
  by (simp add: free_cells_def)

lemma free_cells_Cons: "free_cells (a # as) cs = free_cells as (cs[a := None])"
  by (simp add: free_cells_def)

lemma slot_at_free_cells:
  "slot_at (free_cells as cs) a = (if a \<in> set as then None else slot_at cs a)"
proof (induction as arbitrary: cs)
  case Nil
  then show ?case by simp
next
  case (Cons b as)
  have "slot_at cs b = None" if "\<not> b < length cs"
    using that by (simp add: slot_at_def)
  with Cons show ?case by (auto simp: free_cells_Cons)
qed

subsection \<open>Valid lists\<close>

lemma is_list_obj:
  "is_list s l axs \<Longrightarrow>
   \<exists>ob. slot_at (objs s) l = Some ob \<and> chain (cells s) (next_node (head_m ob)) axs \<and> size_m ob = length axs"
  by (auto simp: is_list_def split: option.splits)

lemma is_list_frame:
  assumes "is_list s l axs" "slot_at (objs t) l = slot_at (objs s) l"
    and "\<And>a. a \<in> fst ` set axs \<Longrightarrow> slot_at (cells t) a = slot_at (cells s) a"
  shows "is_list t l axs"
  using assms by (auto simp: is_list_def split: option.splits intro: chain_cong)

lemma is_list_same:
  "is_list s l axs \<Longrightarrow> slot_at (objs t) l = slot_at (objs s) l \<Longrightarrow> cells t = cells s \<Longrightarrow>
   is_list t l axs"
  by (auto simp: is_list_def split: option.splits)

lemma is_list_Nil_frame:
  "is_list s l [] \<Longrightarrow> slot_at (objs t) l = slot_at (objs s) l \<Longrightarrow> is_list t l []"
  by (auto simp: is_list_def split: option.splits)

lemma is_list_lt: "is_list s l axs \<Longrightarrow> l < length (objs s)"
  by (auto dest!: is_list_obj dest: slot_at_Some_lt)

lemma is_list_addr_lt: "is_list s l axs \<Longrightarrow> a \<in> fst ` set axs \<Longrightarrow> a < length (cells s)"
  by (auto dest!: is_list_obj dest: chain_addr_lt)

lemma is_list_unique: "is_list s l axs \<Longrightarrow> is_list s l bxs \<Longrightarrow> axs = bxs"
  by (auto dest!: is_list_obj dest: chain_unique)

lemma invariantI: "is_list s l axs \<Longrightarrow> invariant s l"
  by (auto simp: invariant_def)

subsection \<open>Memory accesses\<close>

lemma head_next_eq:
  "slot_at (objs s) l = Some ob \<Longrightarrow> head_next l s = Inr (next_node (head_m ob))"
  by (simp add: head_next_def get_next_def load_def)

lemma set_head_next_eq:
  "slot_at (objs s) l = Some ob \<Longrightarrow>
   set_head_next l q s = Inr (s\<lparr>objs := (objs s)[l := Some (ob\<lparr>head_m := (head_m ob)\<lparr>next_node := q\<rparr>\<rparr>)]\<rparr>)"
  by (simp add: set_head_next_def set_next_def load_def store_def)

lemma get_size_eq: "slot_at (objs s) l = Some ob \<Longrightarrow> get_size l s = Inr (size_m ob)"
  by (simp add: get_size_def)

lemma set_size_eq:
  "slot_at (objs s) l = Some ob \<Longrightarrow>
   set_size l k s = Inr (s\<lparr>objs := (objs s)[l := Some (ob\<lparr>size_m := k\<rparr>)]\<rparr>)"
  by (simp add: set_size_def)

lemma get_next_cell:
  "slot_at (cells s) a = Some n \<Longrightarrow> get_next s (Some (Cell a)) = Inr (next_node n)"
  by (simp add: get_next_def load_def)

lemma deref_cell: "slot_at (cells s) a = Some n \<Longrightarrow> deref s (Some (Cell a)) = Inr (val n)"
  by (simp add: deref_def load_def)

lemma incr_cell: "slot_at (cells s) a = Some n \<Longrightarrow> incr s (Some (Cell a)) = Inr (next_node n)"
  by (simp add: incr_def get_next_cell)

lemma delete_cell:
  "slot_at (cells s) a = Some n \<Longrightarrow>
   delete_Node (Some (Cell a)) s = Inr (s\<lparr>cells := (cells s)[a := None]\<rparr>)"
  by (simp add: delete_Node_def)

subsection \<open>Observing a valid list\<close>

lemma collect_chain:
  "chain (cells s) p axs \<Longrightarrow> collect s p None out = Some (Inr (out @ map snd axs))"
proof (induction axs arbitrary: p out)
  case Nil
  then show ?case by (subst collect.simps) simp
next
  case (Cons ax axs)
  obtain a x where ax: "ax = (a, x)" by (cases ax)
  from Cons.prems have "chain (cells s) p ((a, x) # axs)" by (simp only: ax)
  from chain_ConsD[OF this] obtain n where n: "p = Some (Cell a)"
      "slot_at (cells s) a = Some n" "val n = x" "chain (cells s) (next_node n) axs"
    by blast
  have "collect s p None out = collect s (next_node n) None (out @ [x])"
    using n by (subst collect.simps) (simp add: deref_cell incr_cell)
  then show ?case using Cons.IH[OF n(4)] ax by simp
qed

lemma items_is_list: "is_list s l axs \<Longrightarrow> items l s = Some (Inr (map snd axs))"
proof -
  assume "is_list s l axs"
  from is_list_obj[OF this] obtain ob where ob: "slot_at (objs s) l = Some ob"
      "chain (cells s) (next_node (head_m ob)) axs"
    by blast
  then show ?thesis
    by (simp add: items_def begin_it_def head_next_eq end_it_def collect_chain)
qed

lemma GetSize_is_list: "is_list s l axs \<Longrightarrow> GetSize l s = Inr (length axs)"
  by (auto simp: GetSize_def get_size_def is_list_def split: option.splits)

lemma begin_it_is_list: "is_list s l axs \<Longrightarrow> begin_it l s = Inr (first_ptr axs)"
proof -
  assume "is_list s l axs"
  from is_list_obj[OF this] obtain ob where ob: "slot_at (objs s) l = Some ob"
      "chain (cells s) (next_node (head_m ob)) axs"
    by blast
  then show ?thesis
    using chain_first_ptr[OF ob(2)] by (simp add: begin_it_def head_next_eq)
qed

lemma positions_0 [simp]: "positions l axs ! 0 = before_begin l"
  by (simp add: positions_def)

lemma positions_Suc [simp]:
  "j < length axs \<Longrightarrow> positions l axs ! Suc j = Some (Cell (fst (axs ! j)))"
  by (simp add: positions_def)

lemma split_at: "j < length axs \<Longrightarrow> axs = take j axs @ (fst (axs ! j), snd (axs ! j)) # drop (Suc j) axs"
  by (simp add: id_take_nth_drop[symmetric])

lemma get_next_position:
  assumes "is_list s l axs" "i \<le> length axs"
  shows "get_next s (positions l axs ! i) = Inr (first_ptr (drop i axs))"
proof -
  from is_list_obj[OF assms(1)] obtain ob where ob: "slot_at (objs s) l = Some ob"
      "chain (cells s) (next_node (head_m ob)) axs"
    by blast
  show ?thesis
  proof (cases i)
    case 0
    then show ?thesis
      using ob chain_first_ptr[OF ob(2)]
      by (simp add: before_begin_def get_next_def load_def)
  next
    case (Suc j)
    then have j: "j < length axs" using assms(2) by simp
    have "chain (cells s) (next_node (head_m ob))
        (take j axs @ (fst (axs ! j), snd (axs ! j)) # drop (Suc j) axs)"
      using ob(2) split_at[OF j] by simp
    from chain_mid[OF this] obtain n where n: "slot_at (cells s) (fst (axs ! j)) = Some n"
        "chain (cells s) (next_node n) (drop (Suc j) axs)"
      by blast
    show ?thesis
      using Suc j n(1) chain_first_ptr[OF n(2)] by (simp add: get_next_cell)
  qed
qed

subsection \<open>PushFront, PopFront, Clear, the destructor and swap\<close>

text \<open>Each operation on a valid list succeeds; the lemma gives the chain of the
  list afterwards and what the operation leaves untouched in the two stores.\<close>

lemma PushFront_eq:
  assumes "slot_at (objs s) l = Some ob"
  shows "PushFront l v s =
    Inr (s\<lparr>cells := cells s @ [Some \<lparr>val = v, next_node = next_node (head_m ob)\<rparr>],
           objs := (objs s)[l := Some (ob\<lparr>head_m := (head_m ob)\<lparr>next_node := Some (Cell (length (cells s)))\<rparr>,
                                          size_m := Suc (size_m ob)\<rparr>)]\<rparr>)"
proof -
  have lt: "l < length (objs s)" using assms by (rule slot_at_Some_lt)
  show ?thesis
    using assms lt
    by (simp add: PushFront_def head_next_eq new_Node_def set_head_next_eq get_size_eq set_size_eq)
qed

lemma PushFront_is_list:
  assumes "is_list s l axs"
  shows "\<exists>t. PushFront l v s = Inr t \<and> is_list t l ((length (cells s), v) # axs)
           \<and> cells t = cells s @ [Some \<lparr>val = v, next_node = (case axs of [] \<Rightarrow> None | (a, x) # r \<Rightarrow> Some (Cell a))\<rparr>]
           \<and> length (objs t) = length (objs s)
           \<and> (\<forall>k. k \<noteq> l \<longrightarrow> slot_at (objs t) k = slot_at (objs s) k)"
proof -
  from assms obtain ob where ob: "slot_at (objs s) l = Some ob"
      "chain (cells s) (next_node (head_m ob)) axs" "size_m ob = length axs"
    using is_list_obj by blast
  have lt: "l < length (objs s)" using ob(1) by (rule slot_at_Some_lt)
  have hd: "next_node (head_m ob) = (case axs of [] \<Rightarrow> None | (a, x) # r \<Rightarrow> Some (Cell a))"
    using ob(2) by (cases axs) auto
  show ?thesis
    using ob lt hd
    by (simp add: PushFront_eq[OF ob(1)] is_list_def chain_new_cell)
qed

lemma PopFront_is_list:
  assumes "is_list s l ((a, x) # r)"
  shows "\<exists>t. PopFront l s = Inr t \<and> is_list t l r \<and> cells t = (cells s)[a := None]
           \<and> length (objs t) = length (objs s)
           \<and> (\<forall>k. k \<noteq> l \<longrightarrow> slot_at (objs t) k = slot_at (objs s) k)"
proof -
  obtain ob where ob: "slot_at (objs s) l = Some ob"
      "chain (cells s) (next_node (head_m ob)) ((a, x) # r)" "size_m ob = Suc (length r)"
    using is_list_obj[OF assms] by auto
  from chain_ConsD[OF ob(2)] obtain n where n: "next_node (head_m ob) = Some (Cell a)"
      "slot_at (cells s) a = Some n" "chain (cells s) (next_node n) r"
    by blast
  have lt: "l < length (objs s)" using ob(1) by (rule slot_at_Some_lt)
  have nin: "a \<notin> fst ` set r" using ob(2) by (rule chain_head_notin_tail)
  have ch: "chain ((cells s)[a := None]) (next_node n) r"
    using n(3) nin by (rule chain_update_other)
  show ?thesis
    using ob n lt ch
    by (simp add: PopFront_def get_size_eq head_next_eq get_next_cell set_head_next_eq
        set_size_eq size_dec_def delete_Node_def is_list_def)
qed

lemma Clear_loop_Nil:
  assumes "slot_at (objs s) l = Some ob" "next_node (head_m ob) = None"
  shows "Clear_loop l s = Some (Inr s)"
  using assms by (subst Clear_loop.simps) (simp add: head_next_eq)

lemma Clear_loop_Cons:
  assumes "slot_at (objs s) l = Some ob" "next_node (head_m ob) = Some (Cell a)"
    "slot_at (cells s) a = Some n"
  shows "Clear_loop l s = Clear_loop l (s\<lparr>cells := (cells s)[a := None],
      objs := (objs s)[l := Some (ob\<lparr>head_m := (head_m ob)\<lparr>next_node := next_node n\<rparr>\<rparr>)]\<rparr>)"
  using assms
  by (subst Clear_loop.simps)
    (simp add: head_next_eq get_next_cell delete_cell set_head_next_eq)

lemma Clear_loop_chain:
  assumes "slot_at (objs s) l = Some ob" "chain (cells s) (next_node (head_m ob)) axs"
  shows "\<exists>t. Clear_loop l s = Some (Inr t) \<and> cells t = free_cells (map fst axs) (cells s)
           \<and> objs t = (objs s)[l := Some (ob\<lparr>head_m := (head_m ob)\<lparr>next_node := None\<rparr>\<rparr>)]"
  using assms
proof (induction axs arbitrary: s ob)
  case Nil
  then have nn: "next_node (head_m ob) = None" by simp
  then have "ob\<lparr>head_m := (head_m ob)\<lparr>next_node := None\<rparr>\<rparr> = ob" by simp
  moreover have "objs s ! l = Some ob" using Nil(1) by (auto simp: slot_at_def split: if_splits)
  moreover have "(objs s)[l := objs s ! l] = objs s" by (rule list_update_id)
  ultimately have "(objs s)[l := Some (ob\<lparr>head_m := (head_m ob)\<lparr>next_node := None\<rparr>\<rparr>)] = objs s"
    by simp
  then show ?case
    by (simp add: Clear_loop_Nil[OF Nil(1) nn])
next
  case (Cons ax axs)
  obtain a x where ax: "ax = (a, x)" by (cases ax)
  from Cons.prems(2) have "chain (cells s) (next_node (head_m ob)) ((a, x) # axs)"
    by (simp only: ax)
  from chain_ConsD[OF this] obtain n where n: "next_node (head_m ob) = Some (Cell a)"
      "slot_at (cells s) a = Some n" "chain (cells s) (next_node n) axs"
    by blast
  have lt: "l < length (objs s)" using Cons.prems(1) by (rule slot_at_Some_lt)
  have nin: "a \<notin> fst ` set axs" using Cons.prems(2) ax by (blast dest: chain_head_notin_tail)
  define ob2 where "ob2 = ob\<lparr>head_m := (head_m ob)\<lparr>next_node := next_node n\<rparr>\<rparr>"
  define s2 where "s2 = s\<lparr>cells := (cells s)[a := None], objs := (objs s)[l := Some ob2]\<rparr>"
  have step: "Clear_loop l s = Clear_loop l s2"
    unfolding s2_def ob2_def by (rule Clear_loop_Cons[OF Cons.prems(1) n(1) n(2)])
  have o2: "slot_at (objs s2) l = Some ob2"
    using lt by (simp add: s2_def)
  have "chain ((cells s)[a := None]) (next_node n) axs"
    using n(3) nin by (rule chain_update_other)
  then have ch2: "chain (cells s2) (next_node (head_m ob2)) axs"
    by (simp add: s2_def ob2_def)
  from Cons.IH[OF o2 ch2] obtain t where t: "Clear_loop l s2 = Some (Inr t)"
      "cells t = free_cells (map fst axs) (cells s2)"
      "objs t = (objs s2)[l := Some (ob2\<lparr>head_m := (head_m ob2)\<lparr>next_node := None\<rparr>\<rparr>)]"
    by blast
  have "cells t = free_cells (map fst (ax # axs)) (cells s)"
    using t(2) ax by (simp add: s2_def free_cells_Cons)
  moreover have "objs t = (objs s)[l := Some (ob\<lparr>head_m := (head_m ob)\<lparr>next_node := None\<rparr>\<rparr>)]"
    using t(3) by (simp add: s2_def ob2_def)
  ultimately show ?case using step t(1) by simp
qed

lemma Clear_is_list:
  assumes "is_list s l axs"
  shows "\<exists>t. Clear l s = Some (Inr t) \<and> is_list t l []
           \<and> cells t = free_cells (map fst axs) (cells s)
           \<and> length (objs t) = length (objs s)
           \<and> (\<forall>k. k \<noteq> l \<longrightarrow> slot_at (objs t) k = slot_at (objs s) k)"
proof -
  from assms obtain ob where ob: "slot_at (objs s) l = Some ob"
      "chain (cells s) (next_node (head_m ob)) axs"
    using is_list_obj by blast
  have lt: "l < length (objs s)" using ob(1) by (rule slot_at_Some_lt)
  from Clear_loop_chain[OF ob] obtain t where t: "Clear_loop l s = Some (Inr t)"
      "cells t = free_cells (map fst axs) (cells s)"
      "objs t = (objs s)[l := Some (ob\<lparr>head_m := (head_m ob)\<lparr>next_node := None\<rparr>\<rparr>)]"
    by blast
  show ?thesis
    using lt t by (simp add: Clear_def set_size_def is_list_def)
qed

lemma destroy_is_list:
  assumes "is_list s l axs"
  shows "\<exists>t. destroy l s = Some (Inr t) \<and> slot_at (objs t) l = None
           \<and> cells t = free_cells (map fst axs) (cells s)
           \<and> length (objs t) = length (objs s)
           \<and> (\<forall>k. k \<noteq> l \<longrightarrow> slot_at (objs t) k = slot_at (objs s) k)"
proof -
  from Clear_is_list[OF assms] obtain t where t: "Clear l s = Some (Inr t)"
      "cells t = free_cells (map fst axs) (cells s)" "length (objs t) = length (objs s)"
      "\<forall>k. k \<noteq> l \<longrightarrow> slot_at (objs t) k = slot_at (objs s) k"
    by blast
  have "slot_at ((objs t)[l := None]) l = None" by (simp add: slot_at_def)
  then show ?thesis using t by (simp add: destroy_def)
qed

lemma swap_is_list:
  assumes "is_list s l1 axs" "is_list s l2 bxs"
  shows "\<exists>t. swap l1 l2 s = Inr t \<and> is_list t l1 bxs \<and> is_list t l2 axs \<and> cells t = cells s
           \<and> length (objs t) = length (objs s)
           \<and> (\<forall>k. k \<noteq> l1 \<and> k \<noteq> l2 \<longrightarrow> slot_at (objs t) k = slot_at (objs s) k)"
proof -
  from assms(1) obtain o1 where o1: "slot_at (objs s) l1 = Some o1"
      "chain (cells s) (next_node (head_m o1)) axs" "size_m o1 = length axs"
    using is_list_obj by blast
  from assms(2) obtain o2 where o2: "slot_at (objs s) l2 = Some o2"
      "chain (cells s) (next_node (head_m o2)) bxs" "size_m o2 = length bxs"
    using is_list_obj by blast
  have lt: "l1 < length (objs s)" "l2 < length (objs s)"
    using o1(1) o2(1) by (auto dest: slot_at_Some_lt)
  show ?thesis
  proof (cases "l1 = l2")
    case True
    with o1 o2 have same: "o2 = o1" "bxs = axs" by (auto dest: chain_unique)
    show ?thesis
      using True same o1 lt
      by (simp add: swap_def head_next_eq set_head_next_eq get_size_eq set_size_eq is_list_def)
  next
    case False
    show ?thesis
      using False o1 o2 lt
      by (simp add: swap_def head_next_eq set_head_next_eq get_size_eq set_size_eq is_list_def)
  qed
qed

lemma swap_eq:
  assumes "slot_at (objs s) l1 = Some o1" "slot_at (objs s) l2 = Some o2"
  shows "swap l1 l2 s =
    Inr (s\<lparr>objs := (objs s)
          [l2 := Some (o2\<lparr>head_m := (head_m o2)\<lparr>next_node := next_node (head_m o1)\<rparr>, size_m := size_m o1\<rparr>),
           l1 := Some (o1\<lparr>head_m := (head_m o1)\<lparr>next_node := next_node (head_m o2)\<rparr>, size_m := size_m o2\<rparr>)]\<rparr>)"
proof -
  have lt: "l1 < length (objs s)" "l2 < length (objs s)"
    using assms by (auto dest: slot_at_Some_lt)
  show ?thesis
  proof (cases "l1 = l2")
    case True
    with assms have "o2 = o1" by simp
    then show ?thesis
      using True assms(1) lt
      by (simp add: swap_def head_next_eq set_head_next_eq get_size_eq set_size_eq)
  next
    case False
    show ?thesis
      using False assms lt
      by (simp add: swap_def head_next_eq set_head_next_eq get_size_eq set_size_eq
          list_update_swap[of l1 l2])
  qed
qed

lemma swap_commute:
  assumes "slot_at (objs s) l1 = Some o1" "slot_at (objs s) l2 = Some o2"
  shows "swap l2 l1 s = swap l1 l2 s"
proof (cases "l1 = l2")
  case True
  then show ?thesis by simp
next
  case False
  show ?thesis
    unfolding swap_eq[OF assms] swap_eq[OF assms(2,1)]
    using False by (simp add: list_update_swap[of l1 l2])
qed

subsection \<open>InsertAfter and EraseAfter\<close>

lemma InsertAfter_before_begin:
  "InsertAfter l (before_begin l) v s =
     then_do (PushFront l v s) (\<lambda>t. then_do (begin_it l t) (\<lambda>b. Inr (b, t)))"
proof (cases "slot_at (objs s) l")
  case None
  then show ?thesis
    by (simp add: InsertAfter_def PushFront_def before_begin_def head_next_def get_next_def load_def)
next
  case (Some ob)
  then have lt: "l < length (objs s)" by (rule slot_at_Some_lt)
  show ?thesis
    using Some lt
    by (simp add: InsertAfter_def PushFront_def before_begin_def begin_it_def head_next_def
        set_head_next_def get_next_def set_next_def load_def store_def new_Node_def
        get_size_def set_size_def)
qed

lemma InsertAfter_cell:
  assumes "is_list s l (pre @ (a, x) # post)"
  shows "\<exists>t. InsertAfter l (Some (Cell a)) v s = Inr (Some (Cell (length (cells s))), t)
           \<and> is_list t l (pre @ (a, x) # (length (cells s), v) # post)
           \<and> length (cells t) = Suc (length (cells s))
           \<and> (\<forall>b. b < length (cells s) \<and> b \<noteq> a \<longrightarrow> slot_at (cells t) b = slot_at (cells s) b)
           \<and> length (objs t) = length (objs s)
           \<and> (\<forall>k. k \<noteq> l \<longrightarrow> slot_at (objs t) k = slot_at (objs s) k)"
proof -
  define c where "c = length (cells s)"
  from is_list_obj[OF assms] obtain ob where ob: "slot_at (objs s) l = Some ob"
      "chain (cells s) (next_node (head_m ob)) (pre @ (a, x) # post)"
      "size_m ob = length (pre @ (a, x) # post)"
    by blast
  from chain_mid[OF ob(2)] obtain n where n: "slot_at (cells s) a = Some n" "val n = x"
      "chain (cells s) (next_node n) post"
    by blast
  have lt: "l < length (objs s)" using ob(1) by (rule slot_at_Some_lt)
  have alt: "a < c" using n(1) unfolding c_def by (rule slot_at_Some_lt)
  define new where "new = \<lparr>val = v, next_node = next_node n\<rparr>"
  define n' where "n' = n\<lparr>next_node := Some (Cell c)\<rparr>"
  define cs' where "cs' = (cells s @ [Some new])[a := Some n']"
  define t where "t = s\<lparr>cells := cs', objs := (objs s)[l := Some (ob\<lparr>size_m := Suc (size_m ob)\<rparr>)]\<rparr>"
  have run: "InsertAfter l (Some (Cell a)) v s = Inr (Some (Cell c), t)"
    using ob(1) n(1) lt alt
    by (simp add: InsertAfter_def get_next_def set_next_def load_def store_def new_Node_def
        get_size_def set_size_def t_def cs'_def n'_def new_def c_def)
  have d: "a \<notin> fst ` set pre" "a \<notin> fst ` set post"
    using chain_mid_distinct[OF ob(2)] by auto
  have sa: "slot_at cs' a = Some n'" using alt by (simp add: cs'_def c_def)
  have sc: "slot_at cs' c = Some new" using alt by (simp add: cs'_def c_def)
  have same: "slot_at cs' b = slot_at (cells s) b" if "b < c" "b \<noteq> a" for b
    using that by (simp add: cs'_def c_def)
  have "chain cs' (next_node n) post"
  proof (rule chain_cong[OF n(3)])
    fix b assume b: "b \<in> fst ` set post"
    then have "b < c" using chain_addr_lt[OF n(3)] by (simp add: c_def)
    moreover have "b \<noteq> a" using b d(2) by auto
    ultimately show "slot_at cs' b = slot_at (cells s) b" by (rule same)
  qed
  then have tail: "chain cs' (next_node n') ((c, v) # post)"
    using sc by (simp add: n'_def new_def)
  have "chain cs' (next_node (head_m ob)) (pre @ (a, x) # (c, v) # post)"
  proof (rule chain_relink[OF ob(2) sa _ tail])
    show "val n' = x" using n(2) by (simp add: n'_def)
  next
    fix b assume b: "b \<in> fst ` set pre"
    then have "b \<in> fst ` set (pre @ (a, x) # post)" by auto
    then have "b < c" using chain_addr_lt[OF ob(2)] by (simp add: c_def)
    moreover have "b \<noteq> a" using b d(1) by auto
    ultimately show "slot_at cs' b = slot_at (cells s) b" by (rule same)
  qed
  then have "is_list t l (pre @ (a, x) # (c, v) # post)"
    using lt ob(3) by (simp add: is_list_def t_def)
  moreover have "length (cells t) = Suc (length (cells s))" by (simp add: t_def cs'_def)
  moreover have "\<forall>b. b < length (cells s) \<and> b \<noteq> a \<longrightarrow> slot_at (cells t) b = slot_at (cells s) b"
    using same by (simp add: t_def c_def)
  moreover have "length (objs t) = length (objs s)" by (simp add: t_def)
  moreover have "\<forall>k. k \<noteq> l \<longrightarrow> slot_at (objs t) k = slot_at (objs s) k" by (simp add: t_def)
  ultimately show ?thesis using run unfolding c_def by blast
qed

lemma InsertAfter_position:
  assumes "is_list s l axs" "i \<le> length axs"
  shows "\<exists>t. InsertAfter l (positions l axs ! i) v s = Inr (Some (Cell (length (cells s))), t)
           \<and> is_list t l (take i axs @ (length (cells s), v) # drop i axs)"
proof (cases i)
  case 0
  from PushFront_is_list[OF assms(1), of v] obtain t where t: "PushFront l v s = Inr t"
      "is_list t l ((length (cells s), v) # axs)"
    by blast
  have "begin_it l t = Inr (Some (Cell (length (cells s))))"
    using begin_it_is_list[OF t(2)] by simp
  then have "InsertAfter l (before_begin l) v s = Inr (Some (Cell (length (cells s))), t)"
    by (simp add: InsertAfter_before_begin t(1))
  then show ?thesis using t(2) 0 by simp
next
  case (Suc j)
  then have j: "j < length axs" using assms(2) by simp
  have "is_list s l (take j axs @ (fst (axs ! j), snd (axs ! j)) # drop (Suc j) axs)"
    using assms(1) split_at[OF j] by simp
  from InsertAfter_cell[OF this, of v] obtain t where t:
      "InsertAfter l (Some (Cell (fst (axs ! j)))) v s = Inr (Some (Cell (length (cells s))), t)"
      "is_list t l (take j axs @ (fst (axs ! j), snd (axs ! j)) # (length (cells s), v) # drop (Suc j) axs)"
    by blast
  have "take (Suc j) axs = take j axs @ [(fst (axs ! j), snd (axs ! j))]"
    using j by (simp add: take_Suc_conv_app_nth)
  then show ?thesis using t Suc j by simp
qed

lemma EraseAfter_before_begin:
  assumes "is_list s l ((b, y) # post)"
  shows "\<exists>t. EraseAfter l (before_begin l) s = Inr (first_ptr post, t)
           \<and> is_list t l post
           \<and> cells t = (cells s)[b := None]
           \<and> length (objs t) = length (objs s)
           \<and> (\<forall>k. k \<noteq> l \<longrightarrow> slot_at (objs t) k = slot_at (objs s) k)"
proof -
  from is_list_obj[OF assms] obtain ob where ob: "slot_at (objs s) l = Some ob"
      "chain (cells s) (next_node (head_m ob)) ((b, y) # post)"
      "size_m ob = length ((b, y) # post)"
    by blast
  from chain_ConsD[OF ob(2)] obtain m where m: "next_node (head_m ob) = Some (Cell b)"
      "slot_at (cells s) b = Some m" "chain (cells s) (next_node m) post"
    by blast
  have lt: "l < length (objs s)" using ob(1) by (rule slot_at_Some_lt)
  have nin: "b \<notin> fst ` set post" using ob(2) by (rule chain_head_notin_tail)
  have ch: "chain ((cells s)[b := None]) (next_node m) post"
    using m(3) nin by (rule chain_update_other)
  have fp: "next_node m = first_ptr post" using m(3) by (rule chain_first_ptr)
  show ?thesis
    using ob m lt ch fp
    by (simp add: EraseAfter_def before_begin_def get_next_def set_next_def load_def store_def
        delete_Node_def get_size_def set_size_def size_dec_def is_list_def)
qed

lemma EraseAfter_cell:
  assumes "is_list s l (pre @ (a, x) # (b, y) # post)"
  shows "\<exists>t. EraseAfter l (Some (Cell a)) s = Inr (first_ptr post, t)
           \<and> is_list t l (pre @ (a, x) # post)
           \<and> length (cells t) = length (cells s)
           \<and> slot_at (cells t) b = None
           \<and> (\<forall>c. c \<noteq> a \<and> c \<noteq> b \<longrightarrow> slot_at (cells t) c = slot_at (cells s) c)
           \<and> length (objs t) = length (objs s)
           \<and> (\<forall>k. k \<noteq> l \<longrightarrow> slot_at (objs t) k = slot_at (objs s) k)"
proof -
  from is_list_obj[OF assms] obtain ob where ob: "slot_at (objs s) l = Some ob"
      "chain (cells s) (next_node (head_m ob)) (pre @ (a, x) # (b, y) # post)"
      "size_m ob = length (pre @ (a, x) # (b, y) # post)"
    by blast
  from chain_mid[OF ob(2)] obtain n where n: "slot_at (cells s) a = Some n" "val n = x"
      "chain (cells s) (next_node n) ((b, y) # post)"
    by blast
  from chain_ConsD[OF n(3)] obtain m where m: "next_node n = Some (Cell b)"
      "slot_at (cells s) b = Some m" "chain (cells s) (next_node m) post"
    by blast
  have lt: "l < length (objs s)" using ob(1) by (rule slot_at_Some_lt)
  have alt: "a < length (cells s)" "b < length (cells s)"
    using n(1) m(2) by (auto dest: slot_at_Some_lt)
  have d: "a \<notin> fst ` set pre" "a \<notin> fst ` set ((b, y) # post)"
    "fst ` set pre \<inter> fst ` set ((b, y) # post) = {}"
    using chain_mid_distinct[OF ob(2)] by auto
  have d2: "b \<notin> fst ` set post" using n(3) by (rule chain_head_notin_tail)
  have ab: "a \<noteq> b" using d(2) by auto
  define n' where "n' = n\<lparr>next_node := next_node m\<rparr>"
  define cs' where "cs' = (cells s)[b := None, a := Some n']"
  define t where "t = s\<lparr>cells := cs', objs := (objs s)[l := Some (ob\<lparr>size_m := size_m ob - 1\<rparr>)]\<rparr>"
  have fp: "next_node m = first_ptr post" using m(3) by (rule chain_first_ptr)
  have run: "EraseAfter l (Some (Cell a)) s = Inr (first_ptr post, t)"
    using ob(1,3) n(1) m(1,2) lt alt ab fp
    by (simp add: EraseAfter_def get_next_def set_next_def load_def store_def delete_Node_def
        get_size_def set_size_def size_dec_def t_def cs'_def n'_def)
  have sa: "slot_at cs' a = Some n'" using alt by (simp add: cs'_def)
  have same: "slot_at cs' c = slot_at (cells s) c" if "c \<noteq> a" "c \<noteq> b" for c
    using that by (simp add: cs'_def)
  have tail: "chain cs' (next_node n') post"
  proof -
    have "chain cs' (next_node m) post"
    proof (rule chain_cong[OF m(3)])
      fix c assume c: "c \<in> fst ` set post"
      then have "c \<noteq> a" "c \<noteq> b" using d(2) d2 by auto
      then show "slot_at cs' c = slot_at (cells s) c" by (rule same)
    qed
    then show ?thesis by (simp add: n'_def)
  qed
  have "chain cs' (next_node (head_m ob)) (pre @ (a, x) # post)"
  proof (rule chain_relink[OF ob(2) sa _ tail])
    show "val n' = x" using n(2) by (simp add: n'_def)
  next
    fix c assume c: "c \<in> fst ` set pre"
    then have "c \<noteq> a" "c \<noteq> b" using d(1,3) by auto
    then show "slot_at cs' c = slot_at (cells s) c" by (rule same)
  qed
  then have "is_list t l (pre @ (a, x) # post)"
    using lt ob(3) by (simp add: is_list_def t_def)
  moreover have "slot_at (cells t) b = None" using ab alt by (simp add: t_def cs'_def)
  moreover have "\<forall>c. c \<noteq> a \<and> c \<noteq> b \<longrightarrow> slot_at (cells t) c = slot_at (cells s) c"
    using same by (simp add: t_def)
  moreover have "length (cells t) = length (cells s)" by (simp add: t_def cs'_def)
  moreover have "length (objs t) = length (objs s)" by (simp add: t_def)
  moreover have "\<forall>k. k \<noteq> l \<longrightarrow> slot_at (objs t) k = slot_at (objs s) k" by (simp add: t_def)
  ultimately show ?thesis using run by blast
qed

lemma EraseAfter_position:
  assumes "is_list s l axs" "i < length axs"
  shows "\<exists>t. EraseAfter l (positions l axs ! i) s = Inr (first_ptr (drop (Suc i) axs), t)
           \<and> is_list t l (take i axs @ drop (Suc i) axs)
           \<and> slot_at (cells t) (fst (axs ! i)) = None
           \<and> (\<forall>a. a \<notin> fst ` set axs \<longrightarrow> slot_at (cells t) a = slot_at (cells s) a)
           \<and> length (objs t) = length (objs s)
           \<and> (\<forall>k. k \<noteq> l \<longrightarrow> slot_at (objs t) k = slot_at (objs s) k)"
proof (cases i)
  case 0
  obtain b y where hd: "axs ! 0 = (b, y)" by (cases "axs ! 0")
  have ax: "axs = (b, y) # drop (Suc 0) axs"
    using split_at[of 0 axs] assms(2) hd 0 by simp
  then have "is_list s l ((b, y) # drop (Suc 0) axs)" using assms(1) by simp
  from EraseAfter_before_begin[OF this] obtain t where t:
      "EraseAfter l (before_begin l) s = Inr (first_ptr (drop (Suc 0) axs), t)"
      "is_list t l (drop (Suc 0) axs)" "cells t = (cells s)[b := None]"
      "length (objs t) = length (objs s)"
      "\<forall>k. k \<noteq> l \<longrightarrow> slot_at (objs t) k = slot_at (objs s) k"
    by blast
  have "b \<in> fst ` set axs" using ax by (metis fst_conv image_eqI list.set_intros(1))
  then have "\<forall>a. a \<notin> fst ` set axs \<longrightarrow> slot_at (cells t) a = slot_at (cells s) a"
    using t(3) by auto
  moreover have "slot_at (cells t) (fst (axs ! i)) = None"
    using t(3) hd 0 by (simp add: slot_at_def)
  ultimately show ?thesis using t 0 by simp
next
  case (Suc j)
  then have j: "j < length axs" "Suc j < length axs" using assms(2) by simp_all
  obtain a x where aj: "axs ! j = (a, x)" by (cases "axs ! j")
  obtain b y where bj: "axs ! Suc j = (b, y)" by (cases "axs ! Suc j")
  have d: "drop (Suc j) axs = (b, y) # drop (Suc (Suc j)) axs"
    using Cons_nth_drop_Suc[OF j(2)] bj by simp
  have ax: "axs = take j axs @ (a, x) # (b, y) # drop (Suc (Suc j)) axs"
    using split_at[OF j(1)] aj d by simp
  then have "is_list s l (take j axs @ (a, x) # (b, y) # drop (Suc (Suc j)) axs)"
    using assms(1) by simp
  from EraseAfter_cell[OF this] obtain t where t:
      "EraseAfter l (Some (Cell a)) s = Inr (first_ptr (drop (Suc (Suc j)) axs), t)"
      "is_list t l (take j axs @ (a, x) # drop (Suc (Suc j)) axs)"
      "slot_at (cells t) b = None"
      "\<forall>c. c \<noteq> a \<and> c \<noteq> b \<longrightarrow> slot_at (cells t) c = slot_at (cells s) c"
      "length (objs t) = length (objs s)"
      "\<forall>k. k \<noteq> l \<longrightarrow> slot_at (objs t) k = slot_at (objs s) k"
    by blast
  have tk: "take (Suc j) axs = take j axs @ [(a, x)]"
    using j(1) aj by (simp add: take_Suc_conv_app_nth)
  have mem: "a \<in> fst ` set axs" "b \<in> fst ` set axs"
    using j aj bj by (metis fst_conv image_eqI nth_mem)+
  have "\<forall>c. c \<notin> fst ` set axs \<longrightarrow> slot_at (cells t) c = slot_at (cells s) c"
    using t(4) mem by auto
  then show ?thesis
    using t Suc j aj bj tk by simp
qed

subsection \<open>Construction and assignment\<close>

text \<open>The two loops of \<^verbatim>\<open>CopyList\<close> build their chains in fresh nodes, the
  second loop reverses what the first one reversed, and the destructors of the two
  local lists delete only nodes of the first local list.\<close>

lemma push_range_is_list:
  assumes "is_list s l axs"
  shows "\<exists>t ys. push_range l vs s = Inr t
           \<and> is_list t l (rev (zip [length (cells s) ..< length (cells s) + length vs] vs) @ axs)
           \<and> cells t = cells s @ ys \<and> length ys = length vs
           \<and> length (objs t) = length (objs s)
           \<and> (\<forall>k. k \<noteq> l \<longrightarrow> slot_at (objs t) k = slot_at (objs s) k)"
  using assms
proof (induction vs arbitrary: s axs)
  case Nil
  then show ?case by simp
next
  case (Cons v vs)
  from PushFront_is_list[OF Cons.prems, of v] obtain s1 y where s1: "PushFront l v s = Inr s1"
      "is_list s1 l ((length (cells s), v) # axs)" "cells s1 = cells s @ [y]"
      "length (objs s1) = length (objs s)"
      "\<forall>k. k \<noteq> l \<longrightarrow> slot_at (objs s1) k = slot_at (objs s) k"
    by blast
  from Cons.IH[OF s1(2)] obtain t ys where t: "push_range l vs s1 = Inr t"
      "is_list t l (rev (zip [length (cells s1) ..< length (cells s1) + length vs] vs)
                     @ (length (cells s), v) # axs)"
      "cells t = cells s1 @ ys" "length ys = length vs"
      "length (objs t) = length (objs s1)"
      "\<forall>k. k \<noteq> l \<longrightarrow> slot_at (objs t) k = slot_at (objs s1) k"
    by blast
  have up: "[length (cells s) ..< length (cells s) + length (v # vs)]
      = length (cells s) # [length (cells s1) ..< length (cells s1) + length vs]"
    using s1(3) by (simp add: upt_rec)
  have "is_list t l (rev (zip [length (cells s) ..< length (cells s) + length (v # vs)] (v # vs)) @ axs)"
    using t(2) unfolding up by simp
  moreover have "cells t = cells s @ (y # ys)" using t(3) s1(3) by simp
  ultimately show ?case
    using s1 t by (intro exI[of _ t] exI[of _ "y # ys"]) simp
qed

lemma push_iter_chain:
  assumes "chain (cells s) it src" "is_list s l axs"
  shows "\<exists>t ys. push_iter l it None s = Some (Inr t)
           \<and> is_list t l (rev (zip [length (cells s) ..< length (cells s) + length src] (map snd src)) @ axs)
           \<and> cells t = cells s @ ys \<and> length ys = length src
           \<and> length (objs t) = length (objs s)
           \<and> (\<forall>k. k \<noteq> l \<longrightarrow> slot_at (objs t) k = slot_at (objs s) k)"
  using assms
proof (induction src arbitrary: it s axs)
  case Nil
  then have "it = None" by simp
  then show ?case using Nil by (subst push_iter.simps) simp
next
  case (Cons ax src)
  obtain a x where ax: "ax = (a, x)" by (cases ax)
  from Cons.prems(1) have "chain (cells s) it ((a, x) # src)" by (simp only: ax)
  from chain_ConsD[OF this] obtain n where n: "it = Some (Cell a)"
      "slot_at (cells s) a = Some n" "val n = x" "chain (cells s) (next_node n) src"
    by blast
  from PushFront_is_list[OF Cons.prems(2), of x] obtain s1 y where s1: "PushFront l x s = Inr s1"
      "is_list s1 l ((length (cells s), x) # axs)" "cells s1 = cells s @ [y]"
      "length (objs s1) = length (objs s)"
      "\<forall>k. k \<noteq> l \<longrightarrow> slot_at (objs s1) k = slot_at (objs s) k"
    by blast
  have alt: "a < length (cells s)" using n(2) by (rule slot_at_Some_lt)
  have n1: "slot_at (cells s1) a = Some n" using n(2) alt s1(3) by simp
  have ch1: "chain (cells s1) (next_node n) src" using n(4) s1(3) by (simp add: chain_new_cell)
  have step: "push_iter l it None s = push_iter l (next_node n) None s1"
    using n s1(1) n1 by (subst push_iter.simps) (simp add: deref_cell incr_cell)
  from Cons.IH[OF ch1 s1(2)] obtain t ys where t: "push_iter l (next_node n) None s1 = Some (Inr t)"
      "is_list t l (rev (zip [length (cells s1) ..< length (cells s1) + length src] (map snd src))
                     @ (length (cells s), x) # axs)"
      "cells t = cells s1 @ ys" "length ys = length src"
      "length (objs t) = length (objs s1)"
      "\<forall>k. k \<noteq> l \<longrightarrow> slot_at (objs t) k = slot_at (objs s1) k"
    by blast
  have up: "[length (cells s) ..< length (cells s) + length (ax # src)]
      = length (cells s) # [length (cells s1) ..< length (cells s1) + length src]"
    using s1(3) by (simp add: upt_rec)
  have "is_list t l (rev (zip [length (cells s) ..< length (cells s) + length (ax # src)]
          (map snd (ax # src))) @ axs)"
    using t(2) ax unfolding up by simp
  moreover have "cells t = cells s @ (y # ys)" using t(3) s1(3) by simp
  ultimately show ?case
    using s1 t step by (intro exI[of _ t] exI[of _ "y # ys"]) simp
qed

lemma fst_set_zip_upt:
  "length vs = k \<Longrightarrow> fst ` set (zip [c ..< c + k] vs) = {c ..< c + k}"
proof -
  assume "length vs = k"
  then have "map fst (zip [c ..< c + k] vs) = [c ..< c + k]" by simp
  then have "set (map fst (zip [c ..< c + k] vs)) = set [c ..< c + k]" by simp
  then show ?thesis by simp
qed

lemma map_snd_rev_zip_upt:
  "map snd (rev (zip [c ..< c + length vs] vs)) = rev vs"
  by (simp add: rev_map[symmetric])

lemma CopyList_finish_lists:
  assumes "is_list s this []" "is_list s tmp1 rxs" "is_list s tmp2 []"
    and "this \<noteq> tmp1" "this \<noteq> tmp2" "tmp1 \<noteq> tmp2"
  shows "\<exists>t ys. CopyList_finish this tmp1 tmp2 s = Some (Inr t)
           \<and> is_list t this (rev (zip [length (cells s) ..< length (cells s) + length rxs] (map snd rxs)))
           \<and> cells t = free_cells (map fst rxs) (cells s @ ys) \<and> length ys = length rxs
           \<and> length (objs t) = length (objs s)
           \<and> slot_at (objs t) tmp1 = None \<and> slot_at (objs t) tmp2 = None
           \<and> (\<forall>k. k \<noteq> this \<and> k \<noteq> tmp1 \<and> k \<noteq> tmp2 \<longrightarrow> slot_at (objs t) k = slot_at (objs s) k)"
proof -
  define c where "c = length (cells s)"
  define new where "new = rev (zip [c ..< c + length rxs] (map snd rxs))"
  from is_list_obj[OF assms(2)] obtain ob1 where ob1: "slot_at (objs s) tmp1 = Some ob1"
      "chain (cells s) (next_node (head_m ob1)) rxs"
    by blast
  have b: "begin_it tmp1 s = Inr (first_ptr rxs)" using assms(2) by (rule begin_it_is_list)
  have src: "chain (cells s) (first_ptr rxs) rxs" using ob1(2) chain_first_ptr[OF ob1(2)] by simp
  from push_iter_chain[OF src assms(3)] obtain s1 ys where s1:
      "push_iter tmp2 (first_ptr rxs) None s = Some (Inr s1)"
      "is_list s1 tmp2 new" "cells s1 = cells s @ ys" "length ys = length rxs"
      "length (objs s1) = length (objs s)"
      "\<forall>k. k \<noteq> tmp2 \<longrightarrow> slot_at (objs s1) k = slot_at (objs s) k"
    unfolding new_def c_def by auto
  have cell1: "slot_at (cells s1) a = slot_at (cells s) a" if "a < length (cells s)" for a
    using that s1(3) by (simp add: slot_at_def nth_append)
  have l1_this: "is_list s1 this []"
    using assms(1) s1(6) assms(5) by (auto intro: is_list_same is_list_Nil_frame)
  have l1_tmp1: "is_list s1 tmp1 rxs"
  proof (rule is_list_frame[OF assms(2)])
    show "slot_at (objs s1) tmp1 = slot_at (objs s) tmp1" using s1(6) assms(6) by simp
  next
    fix a assume "a \<in> fst ` set rxs"
    with ob1(2) have "a < length (cells s)" by (rule chain_addr_lt)
    then show "slot_at (cells s1) a = slot_at (cells s) a" by (rule cell1)
  qed
  from swap_is_list[OF l1_this s1(2)] obtain s2 where s2: "swap this tmp2 s1 = Inr s2"
      "is_list s2 this new" "is_list s2 tmp2 []" "cells s2 = cells s1"
      "length (objs s2) = length (objs s1)"
      "\<forall>k. k \<noteq> this \<and> k \<noteq> tmp2 \<longrightarrow> slot_at (objs s2) k = slot_at (objs s1) k"
    by blast
  have l2_tmp1: "is_list s2 tmp1 rxs"
    using l1_tmp1 s2(4,6) assms(4,6) by (auto intro: is_list_same is_list_Nil_frame)
  from destroy_is_list[OF s2(3)] obtain s3 where s3: "destroy tmp2 s2 = Some (Inr s3)"
      "slot_at (objs s3) tmp2 = None" "cells s3 = cells s2"
      "length (objs s3) = length (objs s2)"
      "\<forall>k. k \<noteq> tmp2 \<longrightarrow> slot_at (objs s3) k = slot_at (objs s2) k"
    by auto
  have l3_tmp1: "is_list s3 tmp1 rxs"
    using l2_tmp1 s3(3,5) assms(6) by (auto intro: is_list_same is_list_Nil_frame)
  have l3_this: "is_list s3 this new"
    using s2(2) s3(3,5) assms(5) by (auto intro: is_list_same is_list_Nil_frame)
  from destroy_is_list[OF l3_tmp1] obtain t where t: "destroy tmp1 s3 = Some (Inr t)"
      "slot_at (objs t) tmp1 = None" "cells t = free_cells (map fst rxs) (cells s3)"
      "length (objs t) = length (objs s3)"
      "\<forall>k. k \<noteq> tmp1 \<longrightarrow> slot_at (objs t) k = slot_at (objs s3) k"
    by blast
  have new_addrs: "fst ` set new = {c ..< c + length rxs}"
    unfolding new_def using fst_set_zip_upt[of "map snd rxs" "length rxs" c] by simp
  have l_this: "is_list t this new"
  proof (rule is_list_frame[OF l3_this])
    show "slot_at (objs t) this = slot_at (objs s3) this" using t(5) assms(4) by simp
  next
    fix a assume "a \<in> fst ` set new"
    then have "c \<le> a" using new_addrs by simp
    moreover have "b < c" if "b \<in> set (map fst rxs)" for b
      using chain_addr_lt[OF ob1(2), of b] that by (simp add: c_def)
    ultimately have "a \<notin> set (map fst rxs)" by fastforce
    then show "slot_at (cells t) a = slot_at (cells s3) a"
      by (simp add: t(3) slot_at_free_cells)
  qed
  have fin: "CopyList_finish this tmp1 tmp2 s = Some (Inr t)"
    by (simp add: CopyList_finish_def b end_it_def s1(1) s2(1) s3(1) t(1))
  have "slot_at (objs t) tmp2 = None" using t(5) s3(2) assms(6) by simp
  moreover have "cells t = free_cells (map fst rxs) (cells s @ ys)"
    using t(3) s3(3) s2(4) s1(3) by simp
  moreover have "length (objs t) = length (objs s)"
    using t(4) s3(4) s2(5) s1(5) by simp
  moreover have "\<forall>k. k \<noteq> this \<and> k \<noteq> tmp1 \<and> k \<noteq> tmp2 \<longrightarrow> slot_at (objs t) k = slot_at (objs s) k"
    using t(5) s3(5) s2(6) s1(6) by simp
  ultimately show ?thesis
    using fin l_this t(2) s1(4) unfolding new_def c_def by blast
qed

lemma new_SingleLinkedList_eq:
  "new_SingleLinkedList dflt s = (k, t) \<Longrightarrow>
   k = length (objs s) \<and> is_list t k [] \<and> cells t = cells s
   \<and> length (objs t) = Suc (length (objs s))
   \<and> (\<forall>j. j \<noteq> k \<longrightarrow> slot_at (objs t) j = slot_at (objs s) j)"
  by (auto simp: new_SingleLinkedList_def is_list_def slot_at_def nth_append)

lemma CopyList_rest:
  assumes "is_list s2 this []" "is_list s2 tmp2 []"
    and "this \<noteq> tmp1" "this \<noteq> tmp2" "tmp1 \<noteq> tmp2"
    and "is_list s3 tmp1 (rev (zip [length (cells s2) ..< length (cells s2) + length vs] vs))"
    and "cells s3 = cells s2 @ ys" "length ys = length vs"
    and "length (objs s3) = length (objs s2)"
    and "\<forall>k. k \<noteq> tmp1 \<longrightarrow> slot_at (objs s3) k = slot_at (objs s2) k"
  shows "\<exists>t axs. CopyList_finish this tmp1 tmp2 s3 = Some (Inr t)
           \<and> is_list t this axs \<and> map snd axs = vs
           \<and> (\<forall>a \<in> fst ` set axs. length (cells s2) \<le> a)
           \<and> (\<forall>a. a < length (cells s2) \<longrightarrow> slot_at (cells t) a = slot_at (cells s2) a)
           \<and> length (objs t) = length (objs s2)
           \<and> slot_at (objs t) tmp1 = None \<and> slot_at (objs t) tmp2 = None
           \<and> (\<forall>k. k \<noteq> this \<and> k \<noteq> tmp1 \<and> k \<noteq> tmp2 \<longrightarrow> slot_at (objs t) k = slot_at (objs s2) k)"
proof -
  define c where "c = length (cells s2)"
  define rxs where "rxs = rev (zip [c ..< c + length vs] vs)"
  have rlen: "length rxs = length vs" by (simp add: rxs_def)
  have rval: "map snd rxs = rev vs" by (simp add: rxs_def rev_map[symmetric])
  have raddr: "fst ` set rxs = {c ..< c + length vs}"
    unfolding rxs_def using fst_set_zip_upt[of vs "length vs" c] by simp
  have l3_tmp1: "is_list s3 tmp1 rxs" using assms(6) by (simp add: rxs_def c_def)
  have l3_this: "is_list s3 this []"
    using assms(1,3,7,10) by (auto intro: is_list_same is_list_Nil_frame)
  have l3_tmp2: "is_list s3 tmp2 []"
    using assms(2,5,7,10) by (auto intro: is_list_same is_list_Nil_frame)
  from CopyList_finish_lists[OF l3_this l3_tmp1 l3_tmp2 assms(3,4,5)] obtain t zs where t:
      "CopyList_finish this tmp1 tmp2 s3 = Some (Inr t)"
      "is_list t this (rev (zip [length (cells s3) ..< length (cells s3) + length rxs] (map snd rxs)))"
      "cells t = free_cells (map fst rxs) (cells s3 @ zs)" "length zs = length rxs"
      "length (objs t) = length (objs s3)"
      "slot_at (objs t) tmp1 = None" "slot_at (objs t) tmp2 = None"
      "\<forall>k. k \<noteq> this \<and> k \<noteq> tmp1 \<and> k \<noteq> tmp2 \<longrightarrow> slot_at (objs t) k = slot_at (objs s3) k"
    by blast
  define axs where "axs = rev (zip [length (cells s3) ..< length (cells s3) + length rxs] (map snd rxs))"
  have "map snd axs = rev (map snd rxs)"
    unfolding axs_def by (simp add: rev_map[symmetric])
  then have vals: "map snd axs = vs" using rval by simp
  have "fst ` set axs = {length (cells s3) ..< length (cells s3) + length rxs}"
    unfolding axs_def using fst_set_zip_upt[of "map snd rxs" "length rxs" "length (cells s3)"] by simp
  then have fresh: "\<forall>a \<in> fst ` set axs. length (cells s2) \<le> a"
    using assms(7) by simp
  have old: "slot_at (cells t) a = slot_at (cells s2) a" if "a < length (cells s2)" for a
  proof -
    have "a \<notin> set (map fst rxs)" using that raddr by (simp add: c_def)
    then have "slot_at (cells t) a = slot_at (cells s3 @ zs) a"
      by (simp add: t(3) slot_at_free_cells)
    also have "\<dots> = slot_at (cells s2) a"
      using that assms(7) by (simp add: slot_at_def nth_append)
    finally show ?thesis .
  qed
  have "\<forall>k. k \<noteq> this \<and> k \<noteq> tmp1 \<and> k \<noteq> tmp2 \<longrightarrow> slot_at (objs t) k = slot_at (objs s2) k"
    using t(8) assms(10) by simp
  moreover have "length (objs t) = length (objs s2)" using t(5) assms(9) by simp
  ultimately show ?thesis
    using t(1,6,7) t(2)[folded axs_def] vals fresh old by blast
qed

lemma two_locals:
  assumes "is_list s this []"
    and "new_SingleLinkedList dflt s = (tmp1, s1)" "new_SingleLinkedList dflt s1 = (tmp2, s2)"
  shows "tmp1 = length (objs s) \<and> tmp2 = Suc (length (objs s))
       \<and> is_list s2 this [] \<and> is_list s2 tmp1 [] \<and> is_list s2 tmp2 []
       \<and> this \<noteq> tmp1 \<and> this \<noteq> tmp2 \<and> tmp1 \<noteq> tmp2
       \<and> cells s2 = cells s \<and> length (objs s2) = length (objs s) + 2
       \<and> (\<forall>k. k < length (objs s) \<longrightarrow> slot_at (objs s2) k = slot_at (objs s) k)"
proof -
  from new_SingleLinkedList_eq[OF assms(2)] have a: "tmp1 = length (objs s)" "is_list s1 tmp1 []"
      "cells s1 = cells s" "length (objs s1) = Suc (length (objs s))"
      "\<forall>j. j \<noteq> tmp1 \<longrightarrow> slot_at (objs s1) j = slot_at (objs s) j"
    by auto
  from new_SingleLinkedList_eq[OF assms(3)] have b: "tmp2 = length (objs s1)" "is_list s2 tmp2 []"
      "cells s2 = cells s1" "length (objs s2) = Suc (length (objs s1))"
      "\<forall>j. j \<noteq> tmp2 \<longrightarrow> slot_at (objs s2) j = slot_at (objs s1) j"
    by auto
  from is_list_obj[OF assms(1)] obtain ob where "slot_at (objs s) this = Some ob" by blast
  then have lt: "this < length (objs s)" by (rule slot_at_Some_lt)
  have ne: "this \<noteq> tmp1" "this \<noteq> tmp2" "tmp1 \<noteq> tmp2" using lt a(1,4) b(1) by auto
  have "is_list s1 this []" using assms(1) a(3,5) ne by (auto intro: is_list_same is_list_Nil_frame)
  then have "is_list s2 this []" using b(3,5) ne by (auto intro: is_list_same is_list_Nil_frame)
  moreover have "is_list s2 tmp1 []" using a(2) b(3,5) ne by (auto intro: is_list_same is_list_Nil_frame)
  moreover have "\<forall>k. k < length (objs s) \<longrightarrow> slot_at (objs s2) k = slot_at (objs s) k"
    using a(1,4,5) b(1,5) by auto
  ultimately show ?thesis using a b ne by simp
qed

lemma CopyList_range_lists:
  assumes "is_list s this []"
  shows "\<exists>t axs. CopyList_range dflt this vs s = Some (Inr t)
           \<and> is_list t this axs \<and> map snd axs = vs
           \<and> (\<forall>a \<in> fst ` set axs. length (cells s) \<le> a)
           \<and> (\<forall>a. a < length (cells s) \<longrightarrow> slot_at (cells t) a = slot_at (cells s) a)
           \<and> (\<forall>k. k < length (objs s) \<and> k \<noteq> this \<longrightarrow> slot_at (objs t) k = slot_at (objs s) k)"
proof -
  obtain tmp1 s1 where n1: "new_SingleLinkedList dflt s = (tmp1, s1)" by (cases "new_SingleLinkedList dflt s")
  obtain tmp2 s2 where n2: "new_SingleLinkedList dflt s1 = (tmp2, s2)" by (cases "new_SingleLinkedList dflt s1")
  from two_locals[OF assms n1 n2] have loc: "tmp1 = length (objs s)" "tmp2 = Suc (length (objs s))"
      "is_list s2 this []" "is_list s2 tmp1 []" "is_list s2 tmp2 []"
      "this \<noteq> tmp1" "this \<noteq> tmp2" "tmp1 \<noteq> tmp2"
      "cells s2 = cells s"
      "\<forall>k. k < length (objs s) \<longrightarrow> slot_at (objs s2) k = slot_at (objs s) k"
    by auto
  from push_range_is_list[OF loc(4), of vs] obtain s3 ys where s3: "push_range tmp1 vs s2 = Inr s3"
      "is_list s3 tmp1 (rev (zip [length (cells s2) ..< length (cells s2) + length vs] vs))"
      "cells s3 = cells s2 @ ys" "length ys = length vs"
      "length (objs s3) = length (objs s2)"
      "\<forall>k. k \<noteq> tmp1 \<longrightarrow> slot_at (objs s3) k = slot_at (objs s2) k"
    by auto
  from CopyList_rest[OF loc(3) loc(5) loc(6,7,8) s3(2,3,4,5,6)] obtain t axs where t:
      "CopyList_finish this tmp1 tmp2 s3 = Some (Inr t)"
      "is_list t this axs" "map snd axs = vs"
      "\<forall>a \<in> fst ` set axs. length (cells s2) \<le> a"
      "\<forall>a. a < length (cells s2) \<longrightarrow> slot_at (cells t) a = slot_at (cells s2) a"
      "\<forall>k. k \<noteq> this \<and> k \<noteq> tmp1 \<and> k \<noteq> tmp2 \<longrightarrow> slot_at (objs t) k = slot_at (objs s2) k"
    by blast
  have run: "CopyList_range dflt this vs s = Some (Inr t)"
    by (simp add: CopyList_range_def n1 n2 s3(1) t(1))
  have "\<forall>k. k < length (objs s) \<and> k \<noteq> this \<longrightarrow> slot_at (objs t) k = slot_at (objs s) k"
    using t(6) loc(1,2,10) by auto
  then show ?thesis
    using run t(2,3,4,5) loc(9) by auto
qed

lemma CopyList_iter_lists:
  assumes "is_list s this []" "chain (cells s) first_it src"
  shows "\<exists>t axs. CopyList_iter dflt this first_it None s = Some (Inr t)
           \<and> is_list t this axs \<and> map snd axs = map snd src
           \<and> (\<forall>a \<in> fst ` set axs. length (cells s) \<le> a)
           \<and> (\<forall>a. a < length (cells s) \<longrightarrow> slot_at (cells t) a = slot_at (cells s) a)
           \<and> (\<forall>k. k < length (objs s) \<and> k \<noteq> this \<longrightarrow> slot_at (objs t) k = slot_at (objs s) k)"
proof -
  obtain tmp1 s1 where n1: "new_SingleLinkedList dflt s = (tmp1, s1)" by (cases "new_SingleLinkedList dflt s")
  obtain tmp2 s2 where n2: "new_SingleLinkedList dflt s1 = (tmp2, s2)" by (cases "new_SingleLinkedList dflt s1")
  from two_locals[OF assms(1) n1 n2] have loc: "tmp1 = length (objs s)" "tmp2 = Suc (length (objs s))"
      "is_list s2 this []" "is_list s2 tmp1 []" "is_list s2 tmp2 []"
      "this \<noteq> tmp1" "this \<noteq> tmp2" "tmp1 \<noteq> tmp2"
      "cells s2 = cells s"
      "\<forall>k. k < length (objs s) \<longrightarrow> slot_at (objs s2) k = slot_at (objs s) k"
    by auto
  have src2: "chain (cells s2) first_it src" using assms(2) loc(9) by simp
  from push_iter_chain[OF src2 loc(4)] obtain s3 ys where s3:
      "push_iter tmp1 first_it None s2 = Some (Inr s3)"
      "is_list s3 tmp1 (rev (zip [length (cells s2) ..< length (cells s2) + length (map snd src)] (map snd src)))"
      "cells s3 = cells s2 @ ys" "length ys = length (map snd src)"
      "length (objs s3) = length (objs s2)"
      "\<forall>k. k \<noteq> tmp1 \<longrightarrow> slot_at (objs s3) k = slot_at (objs s2) k"
    by auto
  from CopyList_rest[OF loc(3) loc(5) loc(6,7,8) s3(2,3,4,5,6)] obtain t axs where t:
      "CopyList_finish this tmp1 tmp2 s3 = Some (Inr t)"
      "is_list t this axs" "map snd axs = map snd src"
      "\<forall>a \<in> fst ` set axs. length (cells s2) \<le> a"
      "\<forall>a. a < length (cells s2) \<longrightarrow> slot_at (cells t) a = slot_at (cells s2) a"
      "\<forall>k. k \<noteq> this \<and> k \<noteq> tmp1 \<and> k \<noteq> tmp2 \<longrightarrow> slot_at (objs t) k = slot_at (objs s2) k"
    by blast
  have run: "CopyList_iter dflt this first_it None s = Some (Inr t)"
    by (simp add: CopyList_iter_def n1 n2 s3(1) t(1))
  have "\<forall>k. k < length (objs s) \<and> k \<noteq> this \<longrightarrow> slot_at (objs t) k = slot_at (objs s) k"
    using t(6) loc(1,2,10) by auto
  then show ?thesis
    using run t(2,3,4,5) loc(9) by auto
qed

lemma SingleLinkedList_init_lists:
  "\<exists>t axs. SingleLinkedList_init dflt vs s = Some (Inr (length (objs s), t))
     \<and> is_list t (length (objs s)) axs \<and> map snd axs = vs
     \<and> (\<forall>a \<in> fst ` set axs. length (cells s) \<le> a)
     \<and> (\<forall>a. a < length (cells s) \<longrightarrow> slot_at (cells t) a = slot_at (cells s) a)
     \<and> (\<forall>k. k < length (objs s) \<longrightarrow> slot_at (objs t) k = slot_at (objs s) k)"
proof -
  obtain this s1 where n: "new_SingleLinkedList dflt s = (this, s1)" by (cases "new_SingleLinkedList dflt s")
  from new_SingleLinkedList_eq[OF n] have a: "this = length (objs s)" "is_list s1 this []"
      "cells s1 = cells s" "length (objs s1) = Suc (length (objs s))"
      "\<forall>j. j \<noteq> this \<longrightarrow> slot_at (objs s1) j = slot_at (objs s) j"
    by auto
  from CopyList_range_lists[OF a(2), of dflt vs] obtain t axs where t:
      "CopyList_range dflt this vs s1 = Some (Inr t)"
      "is_list t this axs" "map snd axs = vs"
      "\<forall>a \<in> fst ` set axs. length (cells s1) \<le> a"
      "\<forall>a. a < length (cells s1) \<longrightarrow> slot_at (cells t) a = slot_at (cells s1) a"
      "\<forall>k. k < length (objs s1) \<and> k \<noteq> this \<longrightarrow> slot_at (objs t) k = slot_at (objs s1) k"
    by blast
  have "SingleLinkedList_init dflt vs s = Some (Inr (this, t))"
    by (simp add: SingleLinkedList_init_def n t(1))
  then have "SingleLinkedList_init dflt vs s = Some (Inr (length (objs s), t))"
    by (simp only: a(1))
  moreover have "\<forall>k. k < length (objs s) \<longrightarrow> slot_at (objs t) k = slot_at (objs s) k"
    using t(6) a(1,4,5) by auto
  ultimately show ?thesis using t(2,3,4,5) a(1,3) by auto
qed

lemma SingleLinkedList_copy_lists:
  assumes "is_list s other oxs"
  shows "\<exists>t axs. SingleLinkedList_copy dflt other s = Some (Inr (length (objs s), t))
     \<and> is_list t (length (objs s)) axs \<and> map snd axs = map snd oxs
     \<and> (\<forall>a \<in> fst ` set axs. length (cells s) \<le> a)
     \<and> (\<forall>a. a < length (cells s) \<longrightarrow> slot_at (cells t) a = slot_at (cells s) a)
     \<and> (\<forall>k. k < length (objs s) \<longrightarrow> slot_at (objs t) k = slot_at (objs s) k)"
proof -
  obtain this s1 where n: "new_SingleLinkedList dflt s = (this, s1)" by (cases "new_SingleLinkedList dflt s")
  from new_SingleLinkedList_eq[OF n] have a: "this = length (objs s)" "is_list s1 this []"
      "cells s1 = cells s" "length (objs s1) = Suc (length (objs s))"
      "\<forall>j. j \<noteq> this \<longrightarrow> slot_at (objs s1) j = slot_at (objs s) j"
    by auto
  from is_list_obj[OF assms] obtain ob where ob: "slot_at (objs s) other = Some ob"
      "chain (cells s) (next_node (head_m ob)) oxs"
    by blast
  have ne: "other \<noteq> this" using slot_at_Some_lt[OF ob(1)] a(1) by simp
  have l1: "is_list s1 other oxs" using assms a(3,5) ne by (auto intro: is_list_same is_list_Nil_frame)
  have b: "begin_it other s1 = Inr (first_ptr oxs)" using l1 by (rule begin_it_is_list)
  have src: "chain (cells s1) (first_ptr oxs) oxs"
    using ob(2) chain_first_ptr[OF ob(2)] a(3) by simp
  have sz: "get_size this s1 = Inr 0" "head_next this s1 = Inr None"
    using GetSize_is_list[OF a(2)] begin_it_is_list[OF a(2)]
    by (simp_all add: GetSize_def begin_it_def)
  from CopyList_iter_lists[OF a(2) src, of dflt] obtain t axs where t:
      "CopyList_iter dflt this (first_ptr oxs) None s1 = Some (Inr t)"
      "is_list t this axs" "map snd axs = map snd oxs"
      "\<forall>a \<in> fst ` set axs. length (cells s1) \<le> a"
      "\<forall>a. a < length (cells s1) \<longrightarrow> slot_at (cells t) a = slot_at (cells s1) a"
      "\<forall>k. k < length (objs s1) \<and> k \<noteq> this \<longrightarrow> slot_at (objs t) k = slot_at (objs s1) k"
    by blast
  have "SingleLinkedList_copy dflt other s = Some (Inr (this, t))"
    by (simp add: SingleLinkedList_copy_def n sz b end_it_def t(1))
  then have "SingleLinkedList_copy dflt other s = Some (Inr (length (objs s), t))"
    by (simp only: a(1))
  moreover have "\<forall>k. k < length (objs s) \<longrightarrow> slot_at (objs t) k = slot_at (objs s) k"
    using t(6) a(1,4,5) by auto
  ultimately show ?thesis using t(2,3,4,5) a(1,3) by auto
qed

lemma assign_lists:
  assumes "is_list s this axs" "is_list s rhs bxs" "this \<noteq> rhs"
    and "fst ` set axs \<inter> fst ` set bxs = {}"
  shows "\<exists>t cxs. assign dflt this rhs s = Some (Inr t)
     \<and> is_list t this cxs \<and> map snd cxs = map snd bxs \<and> is_list t rhs bxs
     \<and> (\<forall>a \<in> fst ` set cxs. length (cells s) \<le> a)
     \<and> (\<forall>a. a < length (cells s) \<and> a \<notin> fst ` set axs \<longrightarrow> slot_at (cells t) a = slot_at (cells s) a)
     \<and> (\<forall>k. k < length (objs s) \<and> k \<noteq> this \<longrightarrow> slot_at (objs t) k = slot_at (objs s) k)"
proof -
  define tmp where "tmp = length (objs s)"
  from SingleLinkedList_copy_lists[OF assms(2), of dflt] obtain s1 cxs where s1:
      "SingleLinkedList_copy dflt rhs s = Some (Inr (tmp, s1))"
      "is_list s1 tmp cxs" "map snd cxs = map snd bxs"
      "\<forall>a \<in> fst ` set cxs. length (cells s) \<le> a"
      "\<forall>a. a < length (cells s) \<longrightarrow> slot_at (cells s1) a = slot_at (cells s) a"
      "\<forall>k. k < length (objs s) \<longrightarrow> slot_at (objs s1) k = slot_at (objs s) k"
    unfolding tmp_def by blast
  have lt: "this < length (objs s)" "rhs < length (objs s)"
    using assms(1,2) by (auto dest: is_list_lt)
  have ne: "this \<noteq> tmp" "rhs \<noteq> tmp" using lt by (auto simp: tmp_def)
  have old: "is_list s1 l xs" if "is_list s l xs" for l xs
  proof (rule is_list_frame[OF that])
    show "slot_at (objs s1) l = slot_at (objs s) l" using s1(6) is_list_lt[OF that] by simp
  next
    fix a assume "a \<in> fst ` set xs"
    then have "a < length (cells s)" using is_list_addr_lt[OF that] by simp
    then show "slot_at (cells s1) a = slot_at (cells s) a" using s1(5) by simp
  qed
  from swap_is_list[OF old[OF assms(1)] s1(2)] obtain s2 where s2: "swap this tmp s1 = Inr s2"
      "is_list s2 this cxs" "is_list s2 tmp axs" "cells s2 = cells s1"
      "\<forall>k. k \<noteq> this \<and> k \<noteq> tmp \<longrightarrow> slot_at (objs s2) k = slot_at (objs s1) k"
    by blast
  from destroy_is_list[OF s2(3)] obtain t where t: "destroy tmp s2 = Some (Inr t)"
      "cells t = free_cells (map fst axs) (cells s2)"
      "\<forall>k. k \<noteq> tmp \<longrightarrow> slot_at (objs t) k = slot_at (objs s2) k"
    by blast
  have keep: "slot_at (cells t) a = slot_at (cells s1) a" if "a \<notin> fst ` set axs" for a
    using that by (simp add: t(2) s2(4) slot_at_free_cells)
  have fresh: "a \<notin> fst ` set axs" if "a \<in> fst ` set cxs" for a
    using that s1(4) is_list_addr_lt[OF assms(1), of a] by fastforce
  have l_this: "is_list t this cxs"
  proof (rule is_list_frame[OF s2(2)])
    show "slot_at (objs t) this = slot_at (objs s2) this" using t(3) ne by simp
  next
    fix a assume "a \<in> fst ` set cxs"
    then have "a \<notin> fst ` set axs" by (rule fresh)
    then show "slot_at (cells t) a = slot_at (cells s2) a" using keep s2(4) by simp
  qed
  have r2: "is_list s2 rhs bxs"
    using old[OF assms(2)] s2(4,5) assms(3) ne by (auto intro: is_list_same is_list_Nil_frame)
  have l_rhs: "is_list t rhs bxs"
  proof (rule is_list_frame[OF r2])
    show "slot_at (objs t) rhs = slot_at (objs s2) rhs" using t(3) ne by simp
  next
    fix a assume "a \<in> fst ` set bxs"
    then have "a \<notin> fst ` set axs" using assms(4) by blast
    then show "slot_at (cells t) a = slot_at (cells s2) a" using keep s2(4) by simp
  qed
  have run: "assign dflt this rhs s = Some (Inr t)"
    using assms(3) by (simp add: assign_def s1(1) s2(1) t(1))
  have "\<forall>a. a < length (cells s) \<and> a \<notin> fst ` set axs \<longrightarrow> slot_at (cells t) a = slot_at (cells s) a"
    using keep s1(5) by simp
  moreover have "\<forall>k. k < length (objs s) \<and> k \<noteq> this \<longrightarrow> slot_at (objs t) k = slot_at (objs s) k"
    using t(3) s2(5) s1(6) by (auto simp: tmp_def)
  ultimately show ?thesis
    using run l_this l_rhs s1(3,4) by blast
qed

subsection \<open>Comparison\<close>

text \<open>On two chains the loops of \<^verbatim>\<open>std::equal\<close> and
  \<^verbatim>\<open>std::lexicographical_compare\<close> end and compute equality and \<open>lex_less\<close> of the two
  element sequences; \<open>lex_less\<close> is the lexicographic order of the specification, and
  on a linear order the lexicographic order of the library.\<close>

lemma std_equal_chain:
  "chain (cells s) p axs \<Longrightarrow> chain (cells s) q bxs \<Longrightarrow>
   std_equal eq s p None q None = Some (Inr (list_all2 eq (map snd axs) (map snd bxs)))"
proof (induction axs arbitrary: p q bxs)
  case Nil
  then have "p = None" by simp
  moreover have "(q = None) = (bxs = [])" using Nil(2) by (cases bxs) auto
  ultimately show ?case by (subst std_equal.simps) auto
next
  case (Cons ax axs)
  obtain a x where ax: "ax = (a, x)" by (cases ax)
  from Cons.prems(1) have "chain (cells s) p ((a, x) # axs)" by (simp only: ax)
  from chain_ConsD[OF this] obtain n where n: "p = Some (Cell a)"
      "slot_at (cells s) a = Some n" "val n = x" "chain (cells s) (next_node n) axs"
    by blast
  show ?case
  proof (cases bxs)
    case Nil
    with Cons.prems(2) have "q = None" by simp
    then show ?thesis using n(1) Nil by (subst std_equal.simps) simp
  next
    case (Cons bx bxs')
    obtain b y where bx: "bx = (b, y)" by (cases bx)
    from Cons.prems(2) have "chain (cells s) q ((b, y) # bxs')" by (simp only: Cons bx)
    from chain_ConsD[OF this] obtain m where m: "q = Some (Cell b)"
        "slot_at (cells s) b = Some m" "val m = y" "chain (cells s) (next_node m) bxs'"
      by blast
    show ?thesis
    proof (cases "eq x y")
      case True
      have "std_equal eq s p None q None = std_equal eq s (next_node n) None (next_node m) None"
        using n m True by (subst std_equal.simps) (simp add: deref_cell incr_cell)
      then show ?thesis
        using Cons.IH[OF n(4) m(4)] True Cons bx ax by simp
    next
      case False
      have "std_equal eq s p None q None = Some (Inr False)"
        using n m False by (subst std_equal.simps) (simp add: deref_cell incr_cell)
      then show ?thesis using False Cons bx ax by simp
    qed
  qed
qed

lemma std_lexicographical_compare_chain:
  "chain (cells s) p axs \<Longrightarrow> chain (cells s) q bxs \<Longrightarrow>
   std_lexicographical_compare s p None q None = Some (Inr (lex_less (map snd axs) (map snd bxs)))"
proof (induction axs arbitrary: p q bxs)
  case Nil
  then have "p = None" by simp
  moreover have "(q \<noteq> None) = lex_less [] (map snd bxs)" using Nil(2) by (cases bxs) auto
  ultimately show ?case by (subst std_lexicographical_compare.simps) auto
next
  case (Cons ax axs)
  obtain a x where ax: "ax = (a, x)" by (cases ax)
  from Cons.prems(1) have "chain (cells s) p ((a, x) # axs)" by (simp only: ax)
  from chain_ConsD[OF this] obtain n where n: "p = Some (Cell a)"
      "slot_at (cells s) a = Some n" "val n = x" "chain (cells s) (next_node n) axs"
    by blast
  show ?case
  proof (cases bxs)
    case Nil
    with Cons.prems(2) have "q = None" by simp
    then show ?thesis using n(1) Nil ax by (subst std_lexicographical_compare.simps) simp
  next
    case (Cons bx bxs')
    obtain b y where bx: "bx = (b, y)" by (cases bx)
    from Cons.prems(2) have "chain (cells s) q ((b, y) # bxs')" by (simp only: Cons bx)
    from chain_ConsD[OF this] obtain m where m: "q = Some (Cell b)"
        "slot_at (cells s) b = Some m" "val m = y" "chain (cells s) (next_node m) bxs'"
      by blast
    consider "x < y" | "\<not> x < y" "y < x" | "\<not> x < y" "\<not> y < x" by blast
    then show ?thesis
    proof cases
      case 1
      have "std_lexicographical_compare s p None q None = Some (Inr True)"
        using n m 1 by (subst std_lexicographical_compare.simps) (simp add: deref_cell incr_cell)
      then show ?thesis using 1 Cons bx ax by simp
    next
      case 2
      have "std_lexicographical_compare s p None q None = Some (Inr False)"
        using n m 2 by (subst std_lexicographical_compare.simps) (simp add: deref_cell incr_cell)
      then show ?thesis using 2 Cons bx ax by simp
    next
      case 3
      have "std_lexicographical_compare s p None q None
          = std_lexicographical_compare s (next_node n) None (next_node m) None"
        using n m 3 by (subst std_lexicographical_compare.simps) (simp add: deref_cell incr_cell)
      then show ?thesis
        using Cons.IH[OF n(4) m(4)] 3 Cons bx ax by simp
    qed
  qed
qed

lemma op_eq_lists:
  assumes "is_list s l1 axs" "is_list s l2 bxs"
  shows "op_eq eq l1 l2 s = Some (Inr (list_all2 eq (map snd axs) (map snd bxs)))"
proof -
  from is_list_obj[OF assms(1)] obtain o1 where o1: "slot_at (objs s) l1 = Some o1"
      "chain (cells s) (next_node (head_m o1)) axs"
    by blast
  from is_list_obj[OF assms(2)] obtain o2 where o2: "slot_at (objs s) l2 = Some o2"
      "chain (cells s) (next_node (head_m o2)) bxs"
    by blast
  show ?thesis
    using o1 o2 by (simp add: op_eq_def begin_it_def head_next_eq end_it_def std_equal_chain)
qed

lemma op_lt_lists:
  assumes "is_list s l1 axs" "is_list s l2 bxs"
  shows "op_lt l1 l2 s = Some (Inr (lex_less (map snd axs) (map snd bxs)))"
proof -
  from is_list_obj[OF assms(1)] obtain o1 where o1: "slot_at (objs s) l1 = Some o1"
      "chain (cells s) (next_node (head_m o1)) axs"
    by blast
  from is_list_obj[OF assms(2)] obtain o2 where o2: "slot_at (objs s) l2 = Some o2"
      "chain (cells s) (next_node (head_m o2)) bxs"
    by blast
  show ?thesis
    using o1 o2
    by (simp add: op_lt_def begin_it_def head_next_eq end_it_def std_lexicographical_compare_chain)
qed

lemma lexicographic_less_Nil_Nil: "\<not> lexicographic_less [] []"
  by (simp add: lexicographic_less_def)

lemma lexicographic_less_Nil_Cons: "lexicographic_less [] (y # ys)"
  unfolding lexicographic_less_def by (rule exI[of _ 0]) simp

lemma lexicographic_less_Cons_Nil: "\<not> lexicographic_less (x # xs) []"
  by (simp add: lexicographic_less_def)

lemma lexicographic_less_Cons_Cons:
  "lexicographic_less (x # xs) (y # ys) \<longleftrightarrow> x < y \<or> (\<not> x < y \<and> \<not> y < x \<and> lexicographic_less xs ys)"
proof
  assume "lexicographic_less (x # xs) (y # ys)"
  then obtain k where k: "\<forall>i<k. \<not> (x # xs) ! i < (y # ys) ! i \<and> \<not> (y # ys) ! i < (x # xs) ! i"
      "k = length (x # xs) \<and> k < length (y # ys)
       \<or> k < length (x # xs) \<and> k < length (y # ys) \<and> (x # xs) ! k < (y # ys) ! k"
    unfolding lexicographic_less_def by blast
  show "x < y \<or> (\<not> x < y \<and> \<not> y < x \<and> lexicographic_less xs ys)"
  proof (cases k)
    case 0
    then show ?thesis using k(2) by simp
  next
    case (Suc j)
    from k(1) Suc have h: "\<not> x < y" "\<not> y < x" by auto
    have "\<forall>i<j. \<not> xs ! i < ys ! i \<and> \<not> ys ! i < xs ! i"
    proof (intro allI impI)
      fix i assume "i < j"
      then have "Suc i < k" using Suc by simp
      with k(1) have "\<not> (x # xs) ! Suc i < (y # ys) ! Suc i \<and> \<not> (y # ys) ! Suc i < (x # xs) ! Suc i"
        by blast
      then show "\<not> xs ! i < ys ! i \<and> \<not> ys ! i < xs ! i" by simp
    qed
    moreover have "j = length xs \<and> j < length ys \<or> j < length xs \<and> j < length ys \<and> xs ! j < ys ! j"
      using k(2) Suc by simp
    ultimately have "lexicographic_less xs ys" unfolding lexicographic_less_def by blast
    then show ?thesis using h by simp
  qed
next
  assume r: "x < y \<or> (\<not> x < y \<and> \<not> y < x \<and> lexicographic_less xs ys)"
  show "lexicographic_less (x # xs) (y # ys)"
  proof (cases "x < y")
    case True
    then show ?thesis unfolding lexicographic_less_def by (intro exI[of _ 0]) simp
  next
    case False
    with r have h: "\<not> y < x" "lexicographic_less xs ys" by auto
    then obtain j where j: "\<forall>i<j. \<not> xs ! i < ys ! i \<and> \<not> ys ! i < xs ! i"
        "j = length xs \<and> j < length ys \<or> j < length xs \<and> j < length ys \<and> xs ! j < ys ! j"
      unfolding lexicographic_less_def by blast
    have "\<forall>i<Suc j. \<not> (x # xs) ! i < (y # ys) ! i \<and> \<not> (y # ys) ! i < (x # xs) ! i"
    proof (intro allI impI)
      fix i assume i: "i < Suc j"
      show "\<not> (x # xs) ! i < (y # ys) ! i \<and> \<not> (y # ys) ! i < (x # xs) ! i"
      proof (cases i)
        case 0
        then show ?thesis using False h(1) by simp
      next
        case (Suc i')
        then have "i' < j" using i by simp
        with j(1) show ?thesis using Suc by simp
      qed
    qed
    moreover have "Suc j = length (x # xs) \<and> Suc j < length (y # ys)
       \<or> Suc j < length (x # xs) \<and> Suc j < length (y # ys) \<and> (x # xs) ! Suc j < (y # ys) ! Suc j"
      using j(2) by simp
    ultimately show ?thesis unfolding lexicographic_less_def by blast
  qed
qed

lemma lex_less_spec: "lex_less xs ys = lexicographic_less xs ys"
  by (induction xs ys rule: lex_less.induct)
    (auto simp: lexicographic_less_Nil_Nil lexicographic_less_Nil_Cons lexicographic_less_Cons_Nil lexicographic_less_Cons_Cons)

lemma lex_less_prefix:
  fixes xs :: "('a::preorder) list"
  shows "r \<noteq> [] \<Longrightarrow> lex_less xs (xs @ r)" and "\<not> lex_less (xs @ r) xs"
proof -
  show "r \<noteq> [] \<Longrightarrow> lex_less xs (xs @ r)"
  proof (induction xs)
    case Nil
    then show ?case by (cases r) auto
  next
    case (Cons x xs)
    then show ?case by simp
  qed
  show "\<not> lex_less (xs @ r) xs"
  proof (induction xs)
    case Nil
    then show ?case by (cases r) auto
  next
    case (Cons x xs)
    then show ?case by simp
  qed
qed

lemma lex_less_lexord:
  fixes xs :: "('a::linorder) list"
  shows "lex_less xs ys \<longleftrightarrow> (xs, ys) \<in> lexord {(u, v). u < v}"
proof (induction xs ys rule: lex_less.induct)
  case 1
  then show ?case by simp
next
  case (2 y ys)
  then show ?case by simp
next
  case (3 x xs)
  then show ?case by simp
next
  case (4 x xs y ys)
  then show ?case by (auto simp: not_less_iff_gr_or_eq)
qed

lemma lexicographic_less_linorder:
  fixes xs :: "('a::linorder) list"
  shows "lexicographic_less xs ys \<longleftrightarrow> (xs, ys) \<in> lexord {(u, v). u < v}"
  using lex_less_spec[of xs ys] lex_less_lexord[of xs ys] by simp

subsection \<open>Independent lists\<close>

lemma independent_sym: "independent s l1 l2 \<Longrightarrow> independent s l2 l1"
  unfolding independent_def by (metis inf_commute)

lemma independent_unaffected:
  assumes "independent s l l2"
  shows "unaffected s l l2"
proof -
  from assms obtain axs bxs where ab: "l \<noteq> l2" "is_list s l axs" "is_list s l2 bxs"
      "fst ` set axs \<inter> fst ` set bxs = {}"
    unfolding independent_def by blast
  have same: "items l2 t = items l2 s \<and> GetSize l2 t = GetSize l2 s" if "is_list t l2 bxs" for t
    using items_is_list[OF that] items_is_list[OF ab(3)] GetSize_is_list[OF that]
      GetSize_is_list[OF ab(3)] by simp
  have push: "\<exists>t. PushFront l v s = Inr t \<and> items l2 t = items l2 s \<and> GetSize l2 t = GetSize l2 s"
    for v
  proof -
    from PushFront_is_list[OF ab(2), of v] obtain t y where t: "PushFront l v s = Inr t"
        "cells t = cells s @ [y]" "\<forall>k. k \<noteq> l \<longrightarrow> slot_at (objs t) k = slot_at (objs s) k"
      by blast
    have "is_list t l2 bxs"
    proof (rule is_list_frame[OF ab(3)])
      show "slot_at (objs t) l2 = slot_at (objs s) l2" using t(3) ab(1) by simp
    next
      fix a assume "a \<in> fst ` set bxs"
      then have "a < length (cells s)" using is_list_addr_lt[OF ab(3)] by simp
      then show "slot_at (cells t) a = slot_at (cells s) a" using t(2) by simp
    qed
    then show ?thesis using t(1) same by blast
  qed
  have pop: "\<exists>t. PopFront l s = Inr t \<and> items l2 t = items l2 s \<and> GetSize l2 t = GetSize l2 s"
    if "IsEmpty l s = Inr False"
  proof -
    have "get_size l s = Inr (length axs)" using GetSize_is_list[OF ab(2)] by (simp add: GetSize_def)
    with that have "axs \<noteq> []" by (simp add: IsEmpty_def)
    then obtain a x r where axs: "axs = (a, x) # r" by (cases axs) auto
    from PopFront_is_list[OF ab(2)[unfolded axs]] obtain t where t: "PopFront l s = Inr t"
        "cells t = (cells s)[a := None]" "\<forall>k. k \<noteq> l \<longrightarrow> slot_at (objs t) k = slot_at (objs s) k"
      by blast
    have "is_list t l2 bxs"
    proof (rule is_list_frame[OF ab(3)])
      show "slot_at (objs t) l2 = slot_at (objs s) l2" using t(3) ab(1) by simp
    next
      fix b assume "b \<in> fst ` set bxs"
      then have "b \<noteq> a" using ab(4) axs by auto
      then show "slot_at (cells t) b = slot_at (cells s) b" using t(2) by simp
    qed
    then show ?thesis using t(1) same by blast
  qed
  have clear: "\<exists>t. Clear l s = Some (Inr t) \<and> items l2 t = items l2 s \<and> GetSize l2 t = GetSize l2 s"
  proof -
    from Clear_is_list[OF ab(2)] obtain t where t: "Clear l s = Some (Inr t)"
        "cells t = free_cells (map fst axs) (cells s)"
        "\<forall>k. k \<noteq> l \<longrightarrow> slot_at (objs t) k = slot_at (objs s) k"
      by blast
    have "is_list t l2 bxs"
    proof (rule is_list_frame[OF ab(3)])
      show "slot_at (objs t) l2 = slot_at (objs s) l2" using t(3) ab(1) by simp
    next
      fix b assume "b \<in> fst ` set bxs"
      then have "b \<notin> set (map fst axs)" using ab(4) by auto
      then show "slot_at (cells t) b = slot_at (cells s) b"
        by (simp add: t(2) slot_at_free_cells)
    qed
    then show ?thesis using t(1) same by blast
  qed
  show ?thesis unfolding unaffected_def using push pop clear by blast
qed

lemma deep_copyI:
  assumes "is_list t L axs" "is_list t L2 bxs" "map snd bxs = map snd axs" "L \<noteq> L2"
    and "fst ` set axs \<inter> fst ` set bxs = {}"
  shows "deep_copy eq t L L2 (map snd axs)"
proof -
  have i: "independent t L L2" unfolding independent_def using assms(1,2,4,5) by blast
  have "length bxs = length axs" using assms(3) by (metis length_map)
  then have "GetSize L2 t = Inr (length (map snd axs))"
    using GetSize_is_list[OF assms(2)] by simp
  moreover have "op_eq eq L2 L t = Some (Inr (\<forall>x\<in>set (map snd axs). eq x x))"
    using op_eq_lists[OF assms(2,1), of eq] assms(3) by (simp only: list_all2_same)
  ultimately show ?thesis
    unfolding deep_copy_def
    using items_is_list[OF assms(1)] items_is_list[OF assms(2)] GetSize_is_list[OF assms(1)]
      assms(3) i independent_unaffected[OF i] independent_unaffected[OF independent_sym[OF i]]
    by simp
qed

subsection \<open>The example state\<close>

lemma two_lists_0: "is_list two_lists 0 [(0, 1), (1, 2), (2, 3)]"
  by (simp add: two_lists_def is_list_def slot_at_def)

lemma two_lists_1: "is_list two_lists 1 [(3, 1), (4, 2)]"
  by (simp add: two_lists_def is_list_def slot_at_def)

lemma two_lists_independent: "independent two_lists 0 1"
  unfolding independent_def
  using two_lists_0 two_lists_1
  by (intro conjI exI[of _ "[(0, 1), (1, 2), (2, 3)]"] exI[of _ "[(3, 1), (4, 2)]"]) simp_all

lemma two_lists_nonempty: "IsEmpty 0 two_lists = Inr False"
  by (simp add: IsEmpty_def get_size_def two_lists_def slot_at_def)

subsection \<open>The scenario of the specification\<close>

text \<open>The model run on the scenario of the specification: build a list from
  \<open>1, 2, 3\<close>; insert \<open>42\<close> after \<^verbatim>\<open>begin()\<close>; erase after \<^verbatim>\<open>begin()\<close>; clear.\<close>

lemmas run_simps = SingleLinkedList_init_def new_SingleLinkedList_def CopyList_range_def
  CopyList_finish_def PushFront_def InsertAfter_def EraseAfter_def Clear_def destroy_def swap_def
  head_next_def set_head_next_def get_next_def set_next_def load_def store_def slot_at_def
  new_Node_def delete_Node_def get_size_def set_size_def size_dec_def GetSize_def IsEmpty_def
  begin_it_def end_it_def deref_def incr_def items_def
  Clear_loop.simps push_iter.simps collect.simps
  SingleLinkedList_copy_def CopyList_iter_def op_eq_def std_equal.simps

lemma spec_scenario:
  "and_then (SingleLinkedList_init 0 [1, 2, 3 :: nat] \<lparr>cells = [], objs = []\<rparr>) (\<lambda>(l, t).
   and_then (Some (then_do (begin_it l t) (\<lambda>b. InsertAfter l b 42 t))) (\<lambda>(it2, t2).
   and_then (Some (then_do (begin_it l t2) (\<lambda>b. EraseAfter l b t2))) (\<lambda>(it3, t3).
   and_then (Clear l t3) (\<lambda>t4.
     Some (Inr (items l t, GetSize l t, then_do (begin_it l t) (deref t),
                items l t2, GetSize l t2, items l t3, GetSize l t3,
                GetSize l t4, IsEmpty l t4))))))
   = Some (Inr (Some (Inr [1, 2, 3]), Inr 3, Inr 1,
                Some (Inr [1, 42, 2, 3]), Inr 4, Some (Inr [1, 2, 3]), Inr 3,
                Inr 0, Inr True))"
  by (simp add: run_simps)


section \<open>Properties of the list\<close>

text \<open>C1: for every finite sequence \<open>S\<close> and in every state, the
  \<^verbatim>\<open>initializer_list\<close> constructor returns a new list whose front-to-back iteration
  yields exactly \<open>S\<close>, whose size is the length of \<open>S\<close> and whose invariant holds.
  On the way the first local list receives the elements of \<open>S\<close> in reverse order, and
  the second local list, filled from the first one, holds \<open>S\<close> in the original
  order before it is swapped into the new list.\<close>

theorem C1_construct_from_sequence:
  "(\<exists>l t. SingleLinkedList_init dflt S s = Some (Inr (l, t))
      \<and> items l t = Some (Inr S)
      \<and> GetSize l t = Inr (length S)
      \<and> invariant t l)
   \<and> (case new_SingleLinkedList dflt s of (this, s1) \<Rightarrow>
       case new_SingleLinkedList dflt s1 of (tmp1, s2) \<Rightarrow>
       case new_SingleLinkedList dflt s2 of (tmp2, s3) \<Rightarrow>
         \<exists>s4 s5. push_range tmp1 S s3 = Inr s4
           \<and> items tmp1 s4 = Some (Inr (rev S))
           \<and> and_then (Some (begin_it tmp1 s4)) (\<lambda>b. push_iter tmp2 b end_it s4) = Some (Inr s5)
           \<and> items tmp2 s5 = Some (Inr S))"
proof (rule conjI)
  from SingleLinkedList_init_lists[of dflt S s] obtain t axs where t:
      "SingleLinkedList_init dflt S s = Some (Inr (length (objs s), t))"
      "is_list t (length (objs s)) axs" "map snd axs = S"
    by blast
  have "items (length (objs s)) t = Some (Inr S)"
    using items_is_list[OF t(2)] t(3) by simp
  moreover have "GetSize (length (objs s)) t = Inr (length S)"
    using GetSize_is_list[OF t(2)] t(3) by (metis length_map)
  moreover have "invariant t (length (objs s))"
    using t(2) by (auto simp: invariant_def)
  ultimately show "\<exists>l t. SingleLinkedList_init dflt S s = Some (Inr (l, t))
      \<and> items l t = Some (Inr S) \<and> GetSize l t = Inr (length S) \<and> invariant t l"
    using t(1) by blast
next
  obtain this s1 where n0: "new_SingleLinkedList dflt s = (this, s1)"
    by (cases "new_SingleLinkedList dflt s")
  obtain tmp1 s2 where n1: "new_SingleLinkedList dflt s1 = (tmp1, s2)"
    by (cases "new_SingleLinkedList dflt s1")
  obtain tmp2 s3 where n2: "new_SingleLinkedList dflt s2 = (tmp2, s3)"
    by (cases "new_SingleLinkedList dflt s2")
  from new_SingleLinkedList_eq[OF n0] have l0: "is_list s1 this []" by blast
  from two_locals[OF l0 n1 n2] have loc: "is_list s3 tmp1 []" "is_list s3 tmp2 []" "tmp1 \<noteq> tmp2"
    by auto
  from push_range_is_list[OF loc(1), of S] obtain s4 ys where s4: "push_range tmp1 S s3 = Inr s4"
      "is_list s4 tmp1 (rev (zip [length (cells s3) ..< length (cells s3) + length S] S))"
      "\<forall>k. k \<noteq> tmp1 \<longrightarrow> slot_at (objs s4) k = slot_at (objs s3) k"
    by auto
  define rxs where "rxs = rev (zip [length (cells s3) ..< length (cells s3) + length S] S)"
  have rv: "map snd rxs = rev S" unfolding rxs_def by (rule map_snd_rev_zip_upt)
  have i1: "items tmp1 s4 = Some (Inr (rev S))"
    using items_is_list[OF s4(2)] rv by (simp add: rxs_def)
  have b: "begin_it tmp1 s4 = Inr (first_ptr rxs)"
    using begin_it_is_list[OF s4(2)] by (simp add: rxs_def)
  from is_list_obj[OF s4(2)] obtain ob where ob: "slot_at (objs s4) tmp1 = Some ob"
      "chain (cells s4) (next_node (head_m ob)) rxs"
    unfolding rxs_def by blast
  have src: "chain (cells s4) (first_ptr rxs) rxs"
    using ob(2) chain_first_ptr[OF ob(2)] by simp
  have l4: "is_list s4 tmp2 []"
    using loc(2,3) s4(3) by (auto intro: is_list_Nil_frame)
  from push_iter_chain[OF src l4] obtain s5 where s5:
      "push_iter tmp2 (first_ptr rxs) None s4 = Some (Inr s5)"
      "is_list s5 tmp2 (rev (zip [length (cells s4) ..< length (cells s4) + length rxs] (map snd rxs)) @ [])"
    by blast
  have "map snd (rev (zip [length (cells s4) ..< length (cells s4) + length rxs] (map snd rxs)))
      = rev (map snd rxs)"
    using map_snd_rev_zip_upt[of "length (cells s4)" "map snd rxs"] by simp
  then have i2: "items tmp2 s5 = Some (Inr S)"
    using items_is_list[OF s5(2)] rv by simp
  show "case new_SingleLinkedList dflt s of (this, s1) \<Rightarrow>
       case new_SingleLinkedList dflt s1 of (tmp1, s2) \<Rightarrow>
       case new_SingleLinkedList dflt s2 of (tmp2, s3) \<Rightarrow>
         \<exists>s4 s5. push_range tmp1 S s3 = Inr s4
           \<and> items tmp1 s4 = Some (Inr (rev S))
           \<and> and_then (Some (begin_it tmp1 s4)) (\<lambda>b. push_iter tmp2 b end_it s4) = Some (Inr s5)
           \<and> items tmp2 s5 = Some (Inr S)"
    using s4(1) i1 b s5(1) i2 by (simp add: n0 n1 n2 end_it_def)
qed

text \<open>C2: every public operation keeps the structural invariant (a chain from the
  sentinel that ends in \<^verbatim>\<open>nullptr\<close>, with \<^verbatim>\<open>size_\<close> its number of nodes) of the
  lists it works on: the default constructor and the constructor from a sequence
  establish it; the copy constructor, copy assignment, \<^verbatim>\<open>PushFront\<close>, \<^verbatim>\<open>PopFront\<close>
  on a list that is not empty, \<^verbatim>\<open>InsertAfter\<close> at a valid position, \<^verbatim>\<open>EraseAfter\<close>
  at a position whose node has a successor, \<^verbatim>\<open>Clear\<close> and \<^verbatim>\<open>swap\<close> succeed on
  lists that have it and preserve it.\<close>

theorem C2_invariant_preserved:
  "(case new_SingleLinkedList dflt s of (k, t) \<Rightarrow> invariant t k)
   \<and> (\<exists>k t. SingleLinkedList_init dflt vs s = Some (Inr (k, t)) \<and> invariant t k)
   \<and> (invariant s l \<longrightarrow>
        (\<exists>k t. SingleLinkedList_copy dflt l s = Some (Inr (k, t)) \<and> invariant t k \<and> invariant t l))
   \<and> (invariant s l \<and> invariant s l2 \<and> (l \<noteq> l2 \<longrightarrow> independent s l l2) \<longrightarrow>
        (\<exists>t. assign dflt l l2 s = Some (Inr t) \<and> invariant t l \<and> invariant t l2))
   \<and> (invariant s l \<longrightarrow> (\<exists>t. PushFront l v s = Inr t \<and> invariant t l))
   \<and> (invariant s l \<and> IsEmpty l s = Inr False \<longrightarrow> (\<exists>t. PopFront l s = Inr t \<and> invariant t l))
   \<and> (is_list s l axs \<and> i \<le> length axs \<longrightarrow>
        (\<exists>it t. InsertAfter l (positions l axs ! i) v s = Inr (it, t) \<and> invariant t l))
   \<and> (is_list s l axs \<and> j < length axs \<longrightarrow>
        (\<exists>it t. EraseAfter l (positions l axs ! j) s = Inr (it, t) \<and> invariant t l))
   \<and> (invariant s l \<longrightarrow> (\<exists>t. Clear l s = Some (Inr t) \<and> invariant t l))
   \<and> (invariant s l \<and> invariant s l2 \<longrightarrow>
        (\<exists>t. swap l l2 s = Inr t \<and> invariant t l \<and> invariant t l2))"
proof -
  have default: "case new_SingleLinkedList dflt s of (k, t) \<Rightarrow> invariant t k"
  proof -
    obtain k t where n: "new_SingleLinkedList dflt s = (k, t)"
      by (cases "new_SingleLinkedList dflt s")
    from new_SingleLinkedList_eq[OF n] have "is_list t k []" by blast
    then show ?thesis using n by (simp add: invariantI)
  qed
  have init: "\<exists>k t. SingleLinkedList_init dflt vs s = Some (Inr (k, t)) \<and> invariant t k"
    using SingleLinkedList_init_lists[of dflt vs s] by (blast intro: invariantI)
  have copy: "\<exists>k t. SingleLinkedList_copy dflt l s = Some (Inr (k, t)) \<and> invariant t k \<and> invariant t l"
    if "invariant s l"
  proof -
    from that obtain xs where xs: "is_list s l xs" unfolding invariant_def by blast
    from SingleLinkedList_copy_lists[OF xs, of dflt] obtain t bxs where t:
        "SingleLinkedList_copy dflt l s = Some (Inr (length (objs s), t))"
        "is_list t (length (objs s)) bxs"
        "\<forall>a. a < length (cells s) \<longrightarrow> slot_at (cells t) a = slot_at (cells s) a"
        "\<forall>k. k < length (objs s) \<longrightarrow> slot_at (objs t) k = slot_at (objs s) k"
      by blast
    have "is_list t l xs"
    proof (rule is_list_frame[OF xs])
      show "slot_at (objs t) l = slot_at (objs s) l" using t(4) is_list_lt[OF xs] by simp
    next
      fix a assume "a \<in> fst ` set xs"
      then have "a < length (cells s)" using is_list_addr_lt[OF xs] by simp
      then show "slot_at (cells t) a = slot_at (cells s) a" using t(3) by simp
    qed
    then show ?thesis using t(1,2) by (blast intro: invariantI)
  qed
  have asg: "\<exists>t. assign dflt l l2 s = Some (Inr t) \<and> invariant t l \<and> invariant t l2"
    if h: "invariant s l \<and> invariant s l2 \<and> (l \<noteq> l2 \<longrightarrow> independent s l l2)"
  proof (cases "l = l2")
    case True
    then show ?thesis using h by (simp add: assign_def)
  next
    case False
    with h obtain xs ys where d: "is_list s l xs" "is_list s l2 ys"
        "fst ` set xs \<inter> fst ` set ys = {}"
      unfolding independent_def by blast
    from assign_lists[OF d(1,2) False d(3), of dflt] show ?thesis
      by (blast intro: invariantI)
  qed
  have push: "\<exists>t. PushFront l v s = Inr t \<and> invariant t l" if "invariant s l"
  proof -
    from that obtain xs where xs: "is_list s l xs" unfolding invariant_def by blast
    from PushFront_is_list[OF xs, of v] show ?thesis by (blast intro: invariantI)
  qed
  have pop: "\<exists>t. PopFront l s = Inr t \<and> invariant t l"
    if h: "invariant s l \<and> IsEmpty l s = Inr False"
  proof -
    from h obtain xs where xs: "is_list s l xs" unfolding invariant_def by blast
    have "get_size l s = Inr (length xs)" using GetSize_is_list[OF xs] by (simp add: GetSize_def)
    with h have "xs \<noteq> []" by (simp add: IsEmpty_def)
    then obtain a x r where "xs = (a, x) # r" by (cases xs) auto
    with xs have "is_list s l ((a, x) # r)" by simp
    from PopFront_is_list[OF this] show ?thesis by (blast intro: invariantI)
  qed
  have ins: "\<exists>it t. InsertAfter l (positions l axs ! i) v s = Inr (it, t) \<and> invariant t l"
    if "is_list s l axs \<and> i \<le> length axs"
    using InsertAfter_position[of s l axs i v] that by (blast intro: invariantI)
  have ers: "\<exists>it t. EraseAfter l (positions l axs ! j) s = Inr (it, t) \<and> invariant t l"
    if "is_list s l axs \<and> j < length axs"
    using EraseAfter_position[of s l axs j] that by (blast intro: invariantI)
  have clr: "\<exists>t. Clear l s = Some (Inr t) \<and> invariant t l" if "invariant s l"
  proof -
    from that obtain xs where xs: "is_list s l xs" unfolding invariant_def by blast
    from Clear_is_list[OF xs] show ?thesis by (blast intro: invariantI)
  qed
  have swp: "\<exists>t. swap l l2 s = Inr t \<and> invariant t l \<and> invariant t l2"
    if h: "invariant s l \<and> invariant s l2"
  proof -
    from h obtain xs ys where xs: "is_list s l xs" "is_list s l2 ys"
      unfolding invariant_def by blast
    from swap_is_list[OF xs] show ?thesis by (blast intro: invariantI)
  qed
  show ?thesis
    using default init copy asg push pop ins ers clr swp by blast
qed

theorem C2_invariant_preserved_witness:
  "invariant two_lists 0 \<and> invariant two_lists 1 \<and> independent two_lists 0 1
   \<and> IsEmpty 0 two_lists = Inr False
   \<and> is_list two_lists 0 [(0, 1), (1, 2), (2, 3)]
   \<and> (1 :: nat) \<le> length [(0 :: nat, 1 :: nat), (1, 2), (2, 3)]
   \<and> (0 :: nat) < length [(0 :: nat, 1 :: nat), (1, 2), (2, 3)]
   \<and> (\<exists>k t. SingleLinkedList_copy 0 0 two_lists = Some (Inr (k, t)) \<and> invariant t k \<and> invariant t 0)
   \<and> (\<exists>t. assign 0 0 1 two_lists = Some (Inr t) \<and> invariant t 0 \<and> invariant t 1)
   \<and> (\<exists>t. PushFront 0 9 two_lists = Inr t \<and> invariant t 0)
   \<and> (\<exists>t. PopFront 0 two_lists = Inr t \<and> invariant t 0)
   \<and> (\<exists>it t. InsertAfter 0 (positions 0 [(0, 1), (1, 2), (2, 3 :: nat)] ! 1) 9 two_lists = Inr (it, t)
         \<and> invariant t 0)
   \<and> (\<exists>it t. EraseAfter 0 (positions 0 [(0, 1), (1, 2), (2, 3 :: nat)] ! 0) two_lists = Inr (it, t)
         \<and> invariant t 0)
   \<and> (\<exists>t. Clear 0 two_lists = Some (Inr t) \<and> invariant t 0)
   \<and> (\<exists>t. swap 0 1 two_lists = Inr t \<and> invariant t 0 \<and> invariant t 1)"
proof -
  have i0: "invariant two_lists 0" using two_lists_0 by (rule invariantI)
  have i1: "invariant two_lists 1" using two_lists_1 by (rule invariantI)
  have le: "(1 :: nat) \<le> length [(0 :: nat, 1 :: nat), (1, 2), (2, 3)]"
    and lt: "(0 :: nat) < length [(0 :: nat, 1 :: nat), (1, 2), (2, 3)]"
    by simp_all
  show ?thesis
    using C2_invariant_preserved[of 0 two_lists "[]" 0 1 9 "[(0, 1), (1, 2), (2, 3)]" 1 0]
      i0 i1 two_lists_independent two_lists_nonempty two_lists_0 le lt
    by blast
qed

text \<open>C3: the claim as amended. Copy-constructing from a valid list \<open>L\<close>, and
  copy-assigning \<open>L\<close> to another valid list \<open>L2\<close> that shares no node with it, succeed
  and make \<open>L2\<close> a deep copy of \<open>L\<close>: same element sequence and size, no node in
  common, and \<^verbatim>\<open>PushFront\<close>, \<^verbatim>\<open>PopFront\<close> or \<^verbatim>\<open>Clear\<close> on either list leaves the
  sequence and size of the other unchanged. \<open>L2 == L\<close> is true exactly when every
  element of \<open>L\<close> is equal to itself under the element type's \<^verbatim>\<open>operator==\<close>; it
  is true for every list of an element type whose \<^verbatim>\<open>operator==\<close> is reflexive.\<close>

theorem C3_deep_copy:
  assumes "is_list s L axs"
  shows "(\<exists>L2 t. SingleLinkedList_copy dflt L s = Some (Inr (L2, t))
            \<and> deep_copy eq t L L2 (map snd axs)
            \<and> ((\<forall>x\<in>set (map snd axs). eq x x) \<longrightarrow> op_eq eq L2 L t = Some (Inr True)))
       \<and> (independent s L2 L \<longrightarrow>
            (\<exists>t. assign dflt L2 L s = Some (Inr t)
               \<and> deep_copy eq t L L2 (map snd axs)
               \<and> ((\<forall>x\<in>set (map snd axs). eq x x) \<longrightarrow> op_eq eq L2 L t = Some (Inr True))))"
proof (intro conjI impI)
  define N where "N = length (objs s)"
  from SingleLinkedList_copy_lists[OF assms, of dflt] obtain t bxs where t:
      "SingleLinkedList_copy dflt L s = Some (Inr (N, t))"
      "is_list t N bxs" "map snd bxs = map snd axs"
      "\<forall>a \<in> fst ` set bxs. length (cells s) \<le> a"
      "\<forall>a. a < length (cells s) \<longrightarrow> slot_at (cells t) a = slot_at (cells s) a"
      "\<forall>k. k < length (objs s) \<longrightarrow> slot_at (objs t) k = slot_at (objs s) k"
    unfolding N_def by blast
  have lt: "L < N" using is_list_lt[OF assms] by (simp add: N_def)
  have old: "is_list t L axs"
  proof (rule is_list_frame[OF assms])
    show "slot_at (objs t) L = slot_at (objs s) L" using t(6) lt by (simp add: N_def)
  next
    fix a assume "a \<in> fst ` set axs"
    then have "a < length (cells s)" using is_list_addr_lt[OF assms] by simp
    then show "slot_at (cells t) a = slot_at (cells s) a" using t(5) by simp
  qed
  have "a < length (cells s)" if "a \<in> fst ` set axs" for a
    using is_list_addr_lt[OF assms that] .
  then have disj: "fst ` set axs \<inter> fst ` set bxs = {}" using t(4) by fastforce
  have dc: "deep_copy eq t L N (map snd axs)"
    using old t(2,3) disj lt by (intro deep_copyI) auto
  then have "(\<forall>x\<in>set (map snd axs). eq x x) \<longrightarrow> op_eq eq N L t = Some (Inr True)"
    by (simp add: deep_copy_def)
  then show "\<exists>L2 t. SingleLinkedList_copy dflt L s = Some (Inr (L2, t))
            \<and> deep_copy eq t L L2 (map snd axs)
            \<and> ((\<forall>x\<in>set (map snd axs). eq x x) \<longrightarrow> op_eq eq L2 L t = Some (Inr True))"
    using t(1) dc by blast
next
  assume "independent s L2 L"
  then obtain cxs axs' where d: "L2 \<noteq> L" "is_list s L2 cxs" "is_list s L axs'"
      "fst ` set cxs \<inter> fst ` set axs' = {}"
    unfolding independent_def by blast
  have "axs' = axs" using d(3) assms by (rule is_list_unique)
  then have dj: "fst ` set cxs \<inter> fst ` set axs = {}" using d(4) by simp
  from assign_lists[OF d(2) assms d(1) dj, of dflt] obtain t bxs where t:
      "assign dflt L2 L s = Some (Inr t)"
      "is_list t L2 bxs" "map snd bxs = map snd axs" "is_list t L axs"
      "\<forall>a \<in> fst ` set bxs. length (cells s) \<le> a"
    by blast
  have "a < length (cells s)" if "a \<in> fst ` set axs" for a
    using is_list_addr_lt[OF assms that] .
  then have disj: "fst ` set axs \<inter> fst ` set bxs = {}" using t(5) by fastforce
  have dc: "deep_copy eq t L L2 (map snd axs)"
    using t(4,2,3) disj d(1) by (intro deep_copyI) auto
  then have "(\<forall>x\<in>set (map snd axs). eq x x) \<longrightarrow> op_eq eq L2 L t = Some (Inr True)"
    by (simp add: deep_copy_def)
  then show "\<exists>t. assign dflt L2 L s = Some (Inr t)
               \<and> deep_copy eq t L L2 (map snd axs)
               \<and> ((\<forall>x\<in>set (map snd axs). eq x x) \<longrightarrow> op_eq eq L2 L t = Some (Inr True))"
    using t(1) dc by blast
qed

theorem C3_deep_copy_witness:
  "is_list two_lists 0 [(0, 1), (1, 2), (2, 3)] \<and> independent two_lists 1 0
   \<and> (\<exists>L2 t. SingleLinkedList_copy 0 0 two_lists = Some (Inr (L2, t))
         \<and> deep_copy (=) t 0 L2 [1, 2, 3] \<and> op_eq (=) L2 0 t = Some (Inr True))
   \<and> (\<exists>t. assign 0 1 0 two_lists = Some (Inr t)
         \<and> deep_copy (=) t 0 1 [1, 2, 3] \<and> op_eq (=) 1 0 t = Some (Inr True))"
proof -
  have i: "independent two_lists 1 0" using two_lists_independent by (rule independent_sym)
  show ?thesis
    using C3_deep_copy[OF two_lists_0, of 0 "(=)" 1] two_lists_0 i by simp
qed

text \<open>Without the condition on the elements the copy need not compare equal to the
  original: the copy of the list that holds one NaN holds a NaN as well, and
  \<^verbatim>\<open>operator==\<close> of the two lists is false.\<close>

theorem C3_copy_of_nan_list_counterexample:
  "is_list nan_list 0 [(0, NaN)]
   \<and> SingleLinkedList_copy (Num 0) 0 nan_list = Some (Inr (1, nan_copied))
   \<and> items 0 nan_copied = Some (Inr [NaN]) \<and> items 1 nan_copied = Some (Inr [NaN])
   \<and> op_eq fp_eq 1 0 nan_copied = Some (Inr False)"
  by (simp add: nan_list_def nan_copied_def is_list_def run_simps)

text \<open>C4: \<^verbatim>\<open>InsertAfter(before_begin(), v)\<close> does in every state what
  \<^verbatim>\<open>PushFront(v)\<close> does and returns \<^verbatim>\<open>begin()\<close> of the result. On a valid list
  both succeed with the same state, the sequence is \<open>v\<close> followed by the old elements,
  the size is one more, and the returned iterator is the new \<^verbatim>\<open>begin()\<close>: it refers
  to a node that did not exist before and holds \<open>v\<close>.\<close>

theorem C4_insert_after_before_begin:
  "InsertAfter l (before_begin l) v s =
     then_do (PushFront l v s) (\<lambda>t. then_do (begin_it l t) (\<lambda>b. Inr (b, t)))
   \<and> (is_list s l axs \<longrightarrow>
        (\<exists>it t. InsertAfter l (before_begin l) v s = Inr (it, t)
           \<and> PushFront l v s = Inr t
           \<and> items l t = Some (Inr (v # map snd axs))
           \<and> GetSize l t = Inr (Suc (length axs))
           \<and> begin_it l t = Inr it
           \<and> deref t it = Inr v
           \<and> it = Some (Cell (length (cells s)))
           \<and> slot_at (cells s) (length (cells s)) = None))"
proof (intro conjI impI)
  show "InsertAfter l (before_begin l) v s =
     then_do (PushFront l v s) (\<lambda>t. then_do (begin_it l t) (\<lambda>b. Inr (b, t)))"
    by (rule InsertAfter_before_begin)
next
  assume l: "is_list s l axs"
  define c where "c = length (cells s)"
  from PushFront_is_list[OF l, of v] obtain t y where t: "PushFront l v s = Inr t"
      "is_list t l ((c, v) # axs)" "cells t = cells s @ [y]"
    unfolding c_def by blast
  have b: "begin_it l t = Inr (Some (Cell c))"
    using begin_it_is_list[OF t(2)] by simp
  from is_list_obj[OF t(2)] obtain ob where ob: "slot_at (objs t) l = Some ob"
      "chain (cells t) (next_node (head_m ob)) ((c, v) # axs)"
    by blast
  from chain_ConsD[OF ob(2)] obtain n where n: "slot_at (cells t) c = Some n" "val n = v"
    by blast
  have d: "deref t (Some (Cell c)) = Inr v" using n by (simp add: deref_cell)
  have run: "InsertAfter l (before_begin l) v s = Inr (Some (Cell c), t)"
    by (simp add: InsertAfter_before_begin t(1) b)
  have "items l t = Some (Inr (v # map snd axs))" using items_is_list[OF t(2)] by simp
  moreover have "GetSize l t = Inr (Suc (length axs))" using GetSize_is_list[OF t(2)] by simp
  ultimately show "\<exists>it t. InsertAfter l (before_begin l) v s = Inr (it, t)
           \<and> PushFront l v s = Inr t
           \<and> items l t = Some (Inr (v # map snd axs))
           \<and> GetSize l t = Inr (Suc (length axs))
           \<and> begin_it l t = Inr it
           \<and> deref t it = Inr v
           \<and> it = Some (Cell (length (cells s)))
           \<and> slot_at (cells s) (length (cells s)) = None"
    using run t(1) b d unfolding c_def by simp
qed


theorem C4_insert_after_before_begin_witness:
  "is_list two_lists 0 [(0, 1), (1, 2), (2, 3)]
   \<and> (\<exists>it t. InsertAfter 0 (before_begin 0) 9 two_lists = Inr (it, t)
         \<and> PushFront 0 9 two_lists = Inr t
         \<and> items 0 t = Some (Inr (9 # map snd [(0 :: nat, 1), (1, 2), (2, 3)]))
         \<and> GetSize 0 t = Inr (Suc (length [(0 :: nat, 1 :: nat), (1, 2), (2, 3)]))
         \<and> begin_it 0 t = Inr it
         \<and> deref t it = Inr 9
         \<and> it = Some (Cell (length (cells two_lists)))
         \<and> slot_at (cells two_lists) (length (cells two_lists)) = None)"
  using C4_insert_after_before_begin[of 0 9 two_lists "[(0, 1), (1, 2), (2, 3)]"] two_lists_0
  by blast

text \<open>C5: let position \<open>i\<close> of a valid list be one whose node has a successor
  (\<open>i < length axs\<close>; position \<open>0\<close> is \<^verbatim>\<open>before_begin()\<close>, position \<open>i + 1\<close>
  the \<open>i\<close>-th element). Then \<^verbatim>\<open>EraseAfter\<close> succeeds; the list is the old chain
  without its \<open>i\<close>-th node, so the size is one less; exactly one node of the free store
  is destroyed, that successor; and the returned iterator is the successor link the
  position now has. When the position precedes the last element
  (\<open>i + 1 = length axs\<close>), the last element is the one removed and the result is
  \<^verbatim>\<open>end()\<close>.\<close>

theorem C5_erase_after:
  assumes "is_list s l axs" "i < length axs"
  shows "\<exists>it t. EraseAfter l (positions l axs ! i) s = Inr (it, t)
           \<and> is_list t l (take i axs @ drop (Suc i) axs)
           \<and> items l t = Some (Inr (take i (map snd axs) @ drop (Suc i) (map snd axs)))
           \<and> GetSize l t = Inr (length axs - 1)
           \<and> (\<forall>a. slot_at (cells t) a = None \<longleftrightarrow> slot_at (cells s) a = None \<or> a = fst (axs ! i))
           \<and> get_next t (positions l axs ! i) = Inr it
           \<and> it = first_ptr (drop (Suc i) axs)
           \<and> (Suc i = length axs \<longrightarrow>
                it = end_it \<and> items l t = Some (Inr (butlast (map snd axs))))"
proof -
  define new where "new = take i axs @ drop (Suc i) axs"
  from EraseAfter_position[OF assms] obtain t where t:
      "EraseAfter l (positions l axs ! i) s = Inr (first_ptr (drop (Suc i) axs), t)"
      "is_list t l new"
      "slot_at (cells t) (fst (axs ! i)) = None"
      "\<forall>a. a \<notin> fst ` set axs \<longrightarrow> slot_at (cells t) a = slot_at (cells s) a"
    unfolding new_def by blast
  from is_list_obj[OF assms(1)] obtain ob where ob:
      "slot_at (objs s) l = Some ob" "chain (cells s) (next_node (head_m ob)) axs"
    by blast
  from is_list_obj[OF t(2)] obtain ob' where ob':
      "slot_at (objs t) l = Some ob'" "chain (cells t) (next_node (head_m ob')) new"
    by blast
  have it: "items l t = Some (Inr (take i (map snd axs) @ drop (Suc i) (map snd axs)))"
    using items_is_list[OF t(2)] by (simp add: new_def take_map drop_map)
  have sz: "GetSize l t = Inr (length axs - 1)"
    using GetSize_is_list[OF t(2)] assms(2) by (simp add: new_def) 
  have dist: "distinct (map fst axs)" using ob(2) by (rule chain_distinct)
  have cells: "slot_at (cells t) a = None \<longleftrightarrow> slot_at (cells s) a = None \<or> a = fst (axs ! i)" for a
  proof (cases "a \<in> fst ` set axs")
    case False
    then have "a \<noteq> fst (axs ! i)" using assms(2) by (metis image_eqI nth_mem)
    then show ?thesis using t(4) False by simp
  next
    case True
    then have live: "slot_at (cells s) a \<noteq> None" using chain_live[OF ob(2)] by simp
    show ?thesis
    proof (cases "a = fst (axs ! i)")
      case True
      then show ?thesis using t(3) by simp
    next
      case False
      from True obtain k where k: "k < length axs" "fst (axs ! k) = a"
        by (auto simp: in_set_conv_nth)
      then have "k \<noteq> i" using False by auto
      then consider "k < i" | "i < k" by (meson linorder_neqE_nat)
      then have "axs ! k \<in> set new"
      proof cases
        case 1
        then have "take i axs ! k = axs ! k" "k < length (take i axs)"
          using assms(2) by simp_all
        then have "axs ! k \<in> set (take i axs)" by (metis nth_mem)
        then show ?thesis by (simp add: new_def)
      next
        case 2
        then have "drop (Suc i) axs ! (k - Suc i) = axs ! k" "k - Suc i < length (drop (Suc i) axs)"
          using k(1) by simp_all
        then have "axs ! k \<in> set (drop (Suc i) axs)" by (metis nth_mem)
        then show ?thesis by (simp add: new_def)
      qed
      then have "a \<in> fst ` set new" using k(2) by (metis image_eqI)
      then have "slot_at (cells t) a \<noteq> None" using chain_live[OF ob'(2)] by simp
      then show ?thesis using live False by auto
    qed
  qed
  have pos: "positions l new ! i = positions l axs ! i"
  proof (cases i)
    case 0
    then show ?thesis by simp
  next
    case (Suc j)
    then have "j < length new" "j < length axs" using assms(2) by (auto simp: new_def)
    moreover have "new ! j = axs ! j" using Suc assms(2) by (simp add: new_def nth_append)
    ultimately show ?thesis using Suc by simp
  qed
  have "i \<le> length new" using assms(2) by (simp add: new_def)
  from get_next_position[OF t(2) this] have gn: "get_next t (positions l axs ! i) = Inr (first_ptr (drop (Suc i) axs))"
    using assms(2) by (simp add: pos) (simp add: new_def)
  have last: "first_ptr (drop (Suc i) axs) = end_it \<and> items l t = Some (Inr (butlast (map snd axs)))"
    if "Suc i = length axs"
  proof -
    have "take i (map snd axs) = butlast (map snd axs)"
      using that by (metis butlast_conv_take diff_Suc_1 length_map)
    then show ?thesis using it that by (simp add: end_it_def)
  qed
  show ?thesis
    using t(1,2) it sz cells gn last unfolding new_def by blast
qed

theorem C5_erase_after_witness:
  "is_list two_lists 0 [(0, 1), (1, 2), (2, 3)] \<and> 2 < length [(0 :: nat, 1 :: nat), (1, 2), (2, 3)]
   \<and> (\<exists>it t. EraseAfter 0 (Some (Cell 1)) two_lists = Inr (it, t)
         \<and> is_list t 0 [(0, 1), (1, 2)]
         \<and> items 0 t = Some (Inr [1, 2])
         \<and> GetSize 0 t = Inr 2
         \<and> slot_at (cells t) 2 = None
         \<and> get_next t (Some (Cell 1)) = Inr it
         \<and> it = end_it)"
proof -
  have p: "positions 0 [(0 :: nat, 1 :: nat), (1, 2), (2, 3)] ! 2 = Some (Cell 1)"
    by (simp add: positions_def)
  have len: "(2 :: nat) < length [(0 :: nat, 1 :: nat), (1, 2), (2, 3)]" by simp
  from C5_erase_after[OF two_lists_0 len] obtain it t where t:
      "EraseAfter 0 (positions 0 [(0 :: nat, 1 :: nat), (1, 2), (2, 3)] ! 2) two_lists = Inr (it, t)"
      "is_list t 0 (take 2 [(0, 1), (1, 2), (2, 3)] @ drop (Suc 2) [(0, 1), (1, 2), (2, 3)])"
      "items 0 t = Some (Inr (take 2 (map snd [(0 :: nat, 1 :: nat), (1, 2), (2, 3)])
             @ drop (Suc 2) (map snd [(0 :: nat, 1 :: nat), (1, 2), (2, 3)])))"
      "GetSize 0 t = Inr (length [(0 :: nat, 1 :: nat), (1, 2), (2, 3)] - 1)"
      "\<forall>a. slot_at (cells t) a = None \<longleftrightarrow>
          slot_at (cells two_lists) a = None \<or> a = fst ([(0 :: nat, 1 :: nat), (1, 2), (2, 3)] ! 2)"
      "get_next t (positions 0 [(0 :: nat, 1 :: nat), (1, 2), (2, 3)] ! 2) = Inr it"
      "Suc 2 = length [(0 :: nat, 1 :: nat), (1, 2), (2, 3)] \<longrightarrow> it = end_it"
    by blast
  have "slot_at (cells t) 2 = None" using t(5) by simp
  moreover have "it = end_it" using t(7) by simp
  moreover have "is_list t 0 [(0, 1), (1, 2)]" using t(2) by simp
  moreover have "items 0 t = Some (Inr [1, 2])" using t(3) by simp
  moreover have "GetSize 0 t = Inr 2" using t(4) by simp
  ultimately show ?thesis using t(1,6) two_lists_0 len unfolding p by blast
qed

text \<open>C6: for two valid lists, \<^verbatim>\<open>operator==\<close> returns true exactly when the two
  element sequences have the same length and, at every index, elements that are equal
  under the element type's \<^verbatim>\<open>operator==\<close>; \<^verbatim>\<open>operator!=\<close> returns the negation.\<close>

theorem C6_equality:
  assumes "is_list s l1 axs" "is_list s l2 bxs"
  shows "\<exists>xs ys. items l1 s = Some (Inr xs) \<and> items l2 s = Some (Inr ys)
           \<and> op_eq eq l1 l2 s = Some (Inr (length xs = length ys \<and> (\<forall>i<length xs. eq (xs ! i) (ys ! i))))
           \<and> op_ne eq l1 l2 s = Some (Inr (\<not> (length xs = length ys \<and> (\<forall>i<length xs. eq (xs ! i) (ys ! i)))))"
proof -
  have eq: "list_all2 eq (map snd axs) (map snd bxs)
      = (length (map snd axs) = length (map snd bxs)
         \<and> (\<forall>i<length (map snd axs). eq (map snd axs ! i) (map snd bxs ! i)))"
    by (rule list_all2_conv_all_nth)
  have e: "op_eq eq l1 l2 s = Some (Inr (list_all2 eq (map snd axs) (map snd bxs)))"
    using assms by (rule op_eq_lists)
  then have n: "op_ne eq l1 l2 s = Some (Inr (\<not> list_all2 eq (map snd axs) (map snd bxs)))"
    by (simp add: op_ne_def)
  show ?thesis
    using items_is_list[OF assms(1)] items_is_list[OF assms(2)] e n unfolding eq by blast
qed

theorem C6_equality_witness:
  "is_list two_lists 0 [(0, 1), (1, 2), (2, 3)] \<and> is_list two_lists 1 [(3, 1), (4, 2)]
   \<and> op_eq (=) 0 1 two_lists = Some (Inr False) \<and> op_ne (=) 0 1 two_lists = Some (Inr True)"
proof -
  from C6_equality[OF two_lists_0 two_lists_1, of "(=)"] obtain xs ys where r:
      "items 0 two_lists = Some (Inr xs)" "items 1 two_lists = Some (Inr ys)"
      "op_eq (=) 0 1 two_lists = Some (Inr (length xs = length ys \<and> (\<forall>i<length xs. xs ! i = ys ! i)))"
      "op_ne (=) 0 1 two_lists = Some (Inr (\<not> (length xs = length ys \<and> (\<forall>i<length xs. xs ! i = ys ! i))))"
    by blast
  have "xs = [1, 2, 3]" "ys = [1, 2]"
    using r(1,2) items_is_list[OF two_lists_0] items_is_list[OF two_lists_1] by simp_all
  then show ?thesis using r(3,4) two_lists_0 two_lists_1 by simp
qed

text \<open>C7: for two valid lists over an ordered element type, \<^verbatim>\<open>operator<\<close> returns
  the lexicographic comparison of the two element sequences, a strict prefix being less;
  \<^verbatim>\<open>>\<close>, \<^verbatim>\<open><=\<close> and \<^verbatim>\<open>>=\<close> are \<open>rhs < lhs\<close>, \<open>\<not> rhs < lhs\<close> and \<open>\<not> lhs < rhs\<close>; and when
  one list holds a proper prefix of the other, it is strictly less and the other is not
  less than it.\<close>

theorem C7_ordering:
  fixes s :: "('a::preorder) state"
  assumes "is_list s l1 axs" "is_list s l2 bxs"
  shows "\<exists>xs ys. items l1 s = Some (Inr xs) \<and> items l2 s = Some (Inr ys)
           \<and> op_lt l1 l2 s = Some (Inr (lexicographic_less xs ys))
           \<and> op_gt l1 l2 s = Some (Inr (lexicographic_less ys xs))
           \<and> op_le l1 l2 s = Some (Inr (\<not> lexicographic_less ys xs))
           \<and> op_ge l1 l2 s = Some (Inr (\<not> lexicographic_less xs ys))
           \<and> op_gt l1 l2 s = op_lt l2 l1 s
           \<and> op_le l1 l2 s = and_then (op_lt l2 l1 s) (\<lambda>r. Some (Inr (\<not> r)))
           \<and> op_ge l1 l2 s = and_then (op_lt l1 l2 s) (\<lambda>r. Some (Inr (\<not> r)))
           \<and> ((\<exists>r. r \<noteq> [] \<and> ys = xs @ r) \<longrightarrow>
                op_lt l1 l2 s = Some (Inr True) \<and> op_lt l2 l1 s = Some (Inr False))"
proof -
  define xs where "xs = map snd axs"
  define ys where "ys = map snd bxs"
  have a: "op_lt l1 l2 s = Some (Inr (lex_less xs ys))"
    unfolding xs_def ys_def using assms by (rule op_lt_lists)
  have b: "op_lt l2 l1 s = Some (Inr (lex_less ys xs))"
    unfolding xs_def ys_def using assms(2,1) by (rule op_lt_lists)
  have pre: "op_lt l1 l2 s = Some (Inr True) \<and> op_lt l2 l1 s = Some (Inr False)"
    if "\<exists>r. r \<noteq> [] \<and> ys = xs @ r"
    using that a b lex_less_prefix(1)[of _ xs] lex_less_prefix(2)[of xs] by auto
  have "op_lt l1 l2 s = Some (Inr (lexicographic_less xs ys))"
    using a by (simp add: lex_less_spec)
  moreover have "op_gt l1 l2 s = Some (Inr (lexicographic_less ys xs))"
    using b by (simp add: op_gt_def lex_less_spec)
  moreover have "op_le l1 l2 s = Some (Inr (\<not> lexicographic_less ys xs))"
    using b by (simp add: op_le_def lex_less_spec)
  moreover have "op_ge l1 l2 s = Some (Inr (\<not> lexicographic_less xs ys))"
    using a by (simp add: op_ge_def lex_less_spec)
  moreover have "op_gt l1 l2 s = op_lt l2 l1 s" by (simp add: op_gt_def)
  moreover have "op_le l1 l2 s = and_then (op_lt l2 l1 s) (\<lambda>r. Some (Inr (\<not> r)))"
    by (simp add: op_le_def)
  moreover have "op_ge l1 l2 s = and_then (op_lt l1 l2 s) (\<lambda>r. Some (Inr (\<not> r)))"
    by (simp add: op_ge_def)
  moreover have "items l1 s = Some (Inr xs)" "items l2 s = Some (Inr ys)"
    using items_is_list[OF assms(1)] items_is_list[OF assms(2)] by (simp_all add: xs_def ys_def)
  ultimately show ?thesis using pre by blast
qed

theorem C7_ordering_witness:
  "is_list two_lists 1 [(3, 1), (4, 2)] \<and> is_list two_lists 0 [(0, 1), (1, 2), (2, 3)]
   \<and> items 1 two_lists = Some (Inr [1, 2]) \<and> items 0 two_lists = Some (Inr [1, 2, 3])
   \<and> (\<exists>r. r \<noteq> [] \<and> [1, 2, 3 :: nat] = [1, 2] @ r)
   \<and> op_lt 1 0 two_lists = Some (Inr True) \<and> op_lt 0 1 two_lists = Some (Inr False)
   \<and> op_gt 1 0 two_lists = Some (Inr False) \<and> op_le 1 0 two_lists = Some (Inr True)
   \<and> op_ge 1 0 two_lists = Some (Inr False)"
proof -
  from C7_ordering[OF two_lists_1 two_lists_0] obtain xs ys where r:
      "items 1 two_lists = Some (Inr xs)" "items 0 two_lists = Some (Inr ys)"
      "op_gt 1 0 two_lists = op_lt 0 1 two_lists"
      "op_le 1 0 two_lists = and_then (op_lt 0 1 two_lists) (\<lambda>r. Some (Inr (\<not> r)))"
      "op_ge 1 0 two_lists = and_then (op_lt 1 0 two_lists) (\<lambda>r. Some (Inr (\<not> r)))"
      "(\<exists>r. r \<noteq> [] \<and> ys = xs @ r) \<longrightarrow>
         op_lt 1 0 two_lists = Some (Inr True) \<and> op_lt 0 1 two_lists = Some (Inr False)"
    by blast
  have v: "xs = [1, 2]" "ys = [1, 2, 3]"
    using r(1,2) items_is_list[OF two_lists_1] items_is_list[OF two_lists_0] by simp_all
  have p: "\<exists>r. r \<noteq> [] \<and> [1, 2, 3 :: nat] = [1, 2] @ r" by simp
  then have lt: "op_lt 1 0 two_lists = Some (Inr True)" "op_lt 0 1 two_lists = Some (Inr False)"
    using r(6) v by simp_all
  show ?thesis
    using lt r(1,2,3,4,5) v p two_lists_0 two_lists_1 by simp
qed

text \<open>C8: \<^verbatim>\<open>swap\<close> on two valid lists, as a member or as the free function, succeeds
  and changes only the \<^verbatim>\<open>head_.next_node\<close> and \<^verbatim>\<open>size_\<close> members of the two
  objects, which it exchanges; no node of the free store is touched. Afterwards each
  list has the chain, element sequence and size the other had, both are valid, and if
  they shared no node before they share none after and mutating one leaves the other
  as it was.\<close>

theorem C8_swap:
  assumes "is_list s l1 axs" "is_list s l2 bxs"
  shows "\<exists>o1 o2 t. slot_at (objs s) l1 = Some o1 \<and> slot_at (objs s) l2 = Some o2
           \<and> swap l1 l2 s = Inr t \<and> swap_free l1 l2 s = Inr t
           \<and> t = s\<lparr>objs := (objs s)
                 [l2 := Some (o2\<lparr>head_m := (head_m o2)\<lparr>next_node := next_node (head_m o1)\<rparr>,
                                 size_m := size_m o1\<rparr>),
                  l1 := Some (o1\<lparr>head_m := (head_m o1)\<lparr>next_node := next_node (head_m o2)\<rparr>,
                                 size_m := size_m o2\<rparr>)]\<rparr>
           \<and> cells t = cells s
           \<and> is_list t l1 bxs \<and> is_list t l2 axs
           \<and> items l1 t = items l2 s \<and> items l2 t = items l1 s
           \<and> GetSize l1 t = GetSize l2 s \<and> GetSize l2 t = GetSize l1 s
           \<and> (independent s l1 l2 \<longrightarrow>
                independent t l1 l2 \<and> unaffected t l1 l2 \<and> unaffected t l2 l1)"
proof -
  from is_list_obj[OF assms(1)] obtain o1 where o1: "slot_at (objs s) l1 = Some o1" by blast
  from is_list_obj[OF assms(2)] obtain o2 where o2: "slot_at (objs s) l2 = Some o2" by blast
  define t where "t = s\<lparr>objs := (objs s)
      [l2 := Some (o2\<lparr>head_m := (head_m o2)\<lparr>next_node := next_node (head_m o1)\<rparr>, size_m := size_m o1\<rparr>),
       l1 := Some (o1\<lparr>head_m := (head_m o1)\<lparr>next_node := next_node (head_m o2)\<rparr>, size_m := size_m o2\<rparr>)]\<rparr>"
  have run: "swap l1 l2 s = Inr t" unfolding t_def by (rule swap_eq[OF o1 o2])
  have run2: "swap_free l1 l2 s = Inr t"
    using run swap_commute[OF o1 o2] by (simp add: swap_free_def)
  from swap_is_list[OF assms] run have l: "is_list t l1 bxs" "is_list t l2 axs" by auto
  have cells: "cells t = cells s" by (simp add: t_def)
  have obs: "items l1 t = items l2 s" "items l2 t = items l1 s"
      "GetSize l1 t = GetSize l2 s" "GetSize l2 t = GetSize l1 s"
    using items_is_list[OF l(1)] items_is_list[OF l(2)] items_is_list[OF assms(1)]
      items_is_list[OF assms(2)] GetSize_is_list[OF l(1)] GetSize_is_list[OF l(2)]
      GetSize_is_list[OF assms(1)] GetSize_is_list[OF assms(2)]
    by simp_all
  have ind: "independent t l1 l2 \<and> unaffected t l1 l2 \<and> unaffected t l2 l1"
    if "independent s l1 l2"
  proof -
    from that obtain axs' bxs' where d: "l1 \<noteq> l2" "is_list s l1 axs'" "is_list s l2 bxs'"
        "fst ` set axs' \<inter> fst ` set bxs' = {}"
      unfolding independent_def by blast
    have "axs' = axs" "bxs' = bxs"
      using d(2,3) assms by (auto dest: is_list_unique)
    with d(4) have "fst ` set bxs \<inter> fst ` set axs = {}" by auto
    with l d(1) have i: "independent t l1 l2" unfolding independent_def by blast
    then show ?thesis
      using independent_unaffected[OF i] independent_unaffected[OF independent_sym[OF i]] by simp
  qed
  show ?thesis
    using o1 o2 run run2 cells l obs ind t_def by blast
qed

theorem C8_swap_witness:
  "is_list two_lists 0 [(0, 1), (1, 2), (2, 3)] \<and> is_list two_lists 1 [(3, 1), (4, 2)]
   \<and> independent two_lists 0 1
   \<and> (\<exists>t. swap 0 1 two_lists = Inr t \<and> swap_free 0 1 two_lists = Inr t
         \<and> cells t = cells two_lists
         \<and> items 0 t = Some (Inr [1, 2]) \<and> items 1 t = Some (Inr [1, 2, 3])
         \<and> GetSize 0 t = Inr 2 \<and> GetSize 1 t = Inr 3
         \<and> independent t 0 1 \<and> unaffected t 0 1 \<and> unaffected t 1 0)"
proof -
  from C8_swap[OF two_lists_0 two_lists_1] obtain t where t:
      "swap 0 1 two_lists = Inr t" "swap_free 0 1 two_lists = Inr t"
      "cells t = cells two_lists"
      "items 0 t = items 1 two_lists" "items 1 t = items 0 two_lists"
      "GetSize 0 t = GetSize 1 two_lists" "GetSize 1 t = GetSize 0 two_lists"
      "independent two_lists 0 1 \<longrightarrow> independent t 0 1 \<and> unaffected t 0 1 \<and> unaffected t 1 0"
    by blast
  have "items 0 t = Some (Inr [1, 2])" "items 1 t = Some (Inr [1, 2, 3])"
      "GetSize 0 t = Inr 2" "GetSize 1 t = Inr 3"
    using t(4,5,6,7) items_is_list[OF two_lists_0] items_is_list[OF two_lists_1]
      GetSize_is_list[OF two_lists_0] GetSize_is_list[OF two_lists_1]
    by simp_all
  then show ?thesis
    using t(1,2,3,8) two_lists_0 two_lists_1 two_lists_independent by blast
qed

text \<open>C9: for every list \<open>l\<close> and value \<open>v\<close>, \<^verbatim>\<open>PushFront(v)\<close> followed by
  \<^verbatim>\<open>PopFront()\<close> succeeds and restores the list's original nodes, element sequence and
  size; between the two calls the first element, the one that is popped, is \<open>v\<close>.\<close>

theorem C9_push_then_pop:
  assumes "is_list s l axs"
  shows "\<exists>s1 s2. PushFront l v s = Inr s1
           \<and> then_do (begin_it l s1) (deref s1) = Inr v
           \<and> PopFront l s1 = Inr s2
           \<and> is_list s2 l axs
           \<and> items l s = Some (Inr (map snd axs)) \<and> items l s2 = Some (Inr (map snd axs))
           \<and> GetSize l s = Inr (length axs) \<and> GetSize l s2 = Inr (length axs)"
proof -
  from PushFront_is_list[OF assms, of v] obtain s1 where s1: "PushFront l v s = Inr s1"
      "is_list s1 l ((length (cells s), v) # axs)"
    by blast
  from PopFront_is_list[OF s1(2)] obtain s2 where s2: "PopFront l s1 = Inr s2" "is_list s2 l axs"
    by blast
  from is_list_obj[OF s1(2)] obtain ob where ob: "slot_at (objs s1) l = Some ob"
      "chain (cells s1) (next_node (head_m ob)) ((length (cells s), v) # axs)"
    by blast
  from chain_ConsD[OF ob(2)] obtain n where n: "next_node (head_m ob) = Some (Cell (length (cells s)))"
      "slot_at (cells s1) (length (cells s)) = Some n" "val n = v"
    by blast
  have front: "then_do (begin_it l s1) (deref s1) = Inr v"
    using ob(1) n by (simp add: begin_it_def head_next_eq deref_cell)
  show ?thesis
    using s1(1) s2 front items_is_list[OF s2(2)] items_is_list[OF assms]
      GetSize_is_list[OF s2(2)] GetSize_is_list[OF assms]
    by blast
qed

theorem C9_push_then_pop_witness:
  "is_list two_lists 0 [(0, 1), (1, 2), (2, 3)]
   \<and> (\<exists>s1 s2. PushFront 0 9 two_lists = Inr s1
         \<and> then_do (begin_it 0 s1) (deref s1) = Inr 9
         \<and> PopFront 0 s1 = Inr s2
         \<and> is_list s2 0 [(0, 1), (1, 2), (2, 3)]
         \<and> items 0 two_lists = Some (Inr [1, 2, 3]) \<and> items 0 s2 = Some (Inr [1, 2, 3])
         \<and> GetSize 0 two_lists = Inr 3 \<and> GetSize 0 s2 = Inr 3)"
proof -
  from C9_push_then_pop[OF two_lists_0, of 9] obtain s1 s2 where r:
      "PushFront 0 9 two_lists = Inr s1" "then_do (begin_it 0 s1) (deref s1) = Inr 9"
      "PopFront 0 s1 = Inr s2" "is_list s2 0 [(0, 1), (1, 2), (2, 3)]"
      "items 0 two_lists = Some (Inr (map snd [(0 :: nat, 1 :: nat), (1, 2), (2, 3)]))"
      "items 0 s2 = Some (Inr (map snd [(0 :: nat, 1 :: nat), (1, 2), (2, 3)]))"
      "GetSize 0 two_lists = Inr (length [(0 :: nat, 1 :: nat), (1, 2), (2, 3)])"
      "GetSize 0 s2 = Inr (length [(0 :: nat, 1 :: nat), (1, 2), (2, 3)])"
    by blast
  have "items 0 two_lists = Some (Inr [1, 2, 3])" "items 0 s2 = Some (Inr [1, 2, 3])"
      "GetSize 0 two_lists = Inr 3" "GetSize 0 s2 = Inr 3"
    using r(5,6,7,8) by simp_all
  then show ?thesis using r(1,2,3,4) two_lists_0 by blast
qed

text \<open>C10: copy-assigning a list to itself returns at once (the assignment operator
  compares \<^verbatim>\<open>this\<close> with \<^verbatim>\<open>&rhs\<close>): the state, and with it the list's element
  sequence and size, is unchanged.\<close>

theorem C10_self_assignment:
  "assign dflt l l s = Some (Inr s)
   \<and> and_then (assign dflt l l s) (items l) = items l s
   \<and> and_then (assign dflt l l s) (\<lambda>t. Some (GetSize l t)) = Some (GetSize l s)"
  by (simp add: assign_def)

end
